theory Spec2Isabelle
  imports Main "HOL-Library.AList"
begin

section \<open>JavaScript values and state records\<close>

text \<open>
  The container of \<^verbatim>\<open>src/state/observable-state.ts\<close> holds a record
  \<^verbatim>\<open>T extends Record<string, unknown>\<close> and compares its fields with the
  operator \<^verbatim>\<open>===\<close>. A field value is a primitive or a reference: \<open>JRef r\<close>
  stands for an object, array or function, known by its identity \<open>r\<close> alone (the
  contents behind a reference are not part of a value, so no comparison below can
  look at them). Numbers are integers plus \<open>JNaN\<close>, the one value that \<^verbatim>\<open>===\<close>
  does not hold equal to itself.
\<close>

datatype jsval = JUndefined | JNull | JBool bool | JNum int | JNaN | JStr string | JRef nat

definition strict_eq :: "jsval \<Rightarrow> jsval \<Rightarrow> bool" where
  "strict_eq a b = (a = b \<and> a \<noteq> JNaN)"

text \<open>
  A record is the list of its own properties in insertion order; a JavaScript object
  has each key once. \<open>object_keys\<close> is \<^verbatim>\<open>Object.keys\<close>, \<open>get_field\<close> is the
  property read \<^verbatim>\<open>object[key]\<close>, which gives \<^verbatim>\<open>undefined\<close> for a key the
  object does not have (the keys read from a state are taken not to name members
  its prototype gives it), and \<open>AList.update key v object\<close> is the spread
  \<^verbatim>\<open>{ ...object, [key]: v }\<close>: the value is replaced where the key stands, or the
  key is appended.
\<close>

type_synonym obj = "(string \<times> jsval) list"

definition object_keys :: "(string \<times> 'v) list \<Rightarrow> string list" where
  "object_keys object = map fst object"

definition get_field :: "obj \<Rightarrow> string \<Rightarrow> jsval" where
  "get_field object key = (case map_of object key of None \<Rightarrow> JUndefined | Some v \<Rightarrow> v)"

section \<open>The stream primitives\<close>

text \<open>
  The container is built from primitives of the RxJS library, which is not part of
  the repository. The model below follows their documented behaviour:
  \<^item> a \<^verbatim>\<open>BehaviorSubject\<close> holds a value, hands it to every new subscriber at
    once, and \<^verbatim>\<open>next\<close> stores the value and serves the subscribers in the order
    they subscribed, before it returns;
  \<^item> a \<^verbatim>\<open>Subject\<close> replays nothing; once completed it ignores \<^verbatim>\<open>next\<close> and hands
    a new subscriber its completion only;
  \<^item> a \<^verbatim>\<open>ReplaySubject(1)\<close> also hands a new subscriber the last value it sent;
  \<^item> \<^verbatim>\<open>distinctUntilChanged(comparator)\<close> lets the first value through, and a
    later one unless \<^verbatim>\<open>comparator(previous, current)\<close> holds, where
    \<^verbatim>\<open>previous\<close> is the value it let through last;
  \<^item> \<^verbatim>\<open>takeUntil(notifier)\<close> subscribes to the notifier when it is subscribed
    itself, completes when the notifier sends a value, and ignores the notifier's
    completion;
  \<^item> \<^verbatim>\<open>combineLatest\<close> emits the latest values of its sources whenever one of
    them sends a value, once each has sent one;
  \<^item> \<^verbatim>\<open>switchMap\<close> unsubscribes from its inner stream and subscribes to a new one
    for every value it receives, and \<^verbatim>\<open>startWith(v)\<close> sends \<open>v\<close> before it
    subscribes to its source;
  \<^item> an error thrown by a subscriber's callback is reported later, outside any call
    of the container, and the subscription goes on.
\<close>

section \<open>Streams derived from the state cell\<close>

text \<open>
  \<open>StateStream\<close> is the member \<^verbatim>\<open>state$\<close>, \<open>OnlySelectWhen keys\<close> the result of
  \<^verbatim>\<open>onlySelectWhen(keys)\<close> and \<open>Select key\<close> the result of \<^verbatim>\<open>select(key)\<close>
  (also every entry of \<^verbatim>\<open>pick\<close>). Each is the pipe
  \<^verbatim>\<open>syncState, filter(v !== null), distinctUntilChanged(comparator), takeUntil(destroy$$)\<close>;
  \<open>comparator\<close> is the function handed to \<^verbatim>\<open>distinctUntilChanged\<close> and
  \<open>project\<close> the final \<^verbatim>\<open>map(state => state[key])\<close> of \<^verbatim>\<open>select\<close>.
\<close>

datatype stream = StateStream | OnlySelectWhen "string list" | Select string

datatype emission = EState obj | EValue jsval

fun comparator :: "stream \<Rightarrow> obj \<Rightarrow> obj \<Rightarrow> bool" where
  "comparator StateStream previous current =
     list_all (\<lambda>key. strict_eq (get_field current key) (get_field previous key)) (object_keys current)"
| "comparator (OnlySelectWhen keys) previous current =
     list_all (\<lambda>key. strict_eq (get_field current key) (get_field previous key)) keys"
| "comparator (Select key) previous current =
     list_all (\<lambda>key. strict_eq (get_field current key) (get_field previous key)) [key]"

fun project :: "stream \<Rightarrow> obj \<Rightarrow> emission" where
  "project (Select key) state = EValue (get_field state key)"
| "project StateStream state = EState state"
| "project (OnlySelectWhen keys) state = EState state"

text \<open>
  One subscription of a consumer to such a stream. \<open>sub_prev\<close> is the key that
  \<^verbatim>\<open>distinctUntilChanged\<close> keeps (nothing before the first value), \<open>sub_out\<close>
  lists the states the stream has emitted to this consumer so far (\<open>seen\<close> is what
  the consumer is handed for them: the state, or one field of it for
  \<^verbatim>\<open>select\<close>), and \<open>sub_closed\<close> says that \<^verbatim>\<open>takeUntil\<close> has completed the
  subscription. Consumers only record what they
  receive: they do not call back into the container while a value is delivered, so
  \<^verbatim>\<open>map(() => this.value)\<close> of \<^verbatim>\<open>syncState\<close> hands on the value just pushed.
\<close>

record subscription =
  sub_stream :: stream
  sub_prev :: "obj option"
  sub_out :: "obj list"
  sub_closed :: bool

definition new_subscription :: "stream \<Rightarrow> subscription" where
  "new_subscription st = \<lparr>sub_stream = st, sub_prev = None, sub_out = [], sub_closed = False\<rparr>"

definition sub_emit :: "obj \<Rightarrow> subscription \<Rightarrow> subscription" where
  "sub_emit current s =
     s\<lparr>sub_prev := Some current, sub_out := sub_out s @ [current]\<rparr>"

definition seen :: "subscription \<Rightarrow> emission list" where
  "seen s = map (project (sub_stream s)) (sub_out s)"

definition sub_next :: "obj \<Rightarrow> subscription \<Rightarrow> subscription" where
  "sub_next current s =
     (if sub_closed s then s
      else case sub_prev s of
        None \<Rightarrow> sub_emit current s
      | Some previous \<Rightarrow>
          if comparator (sub_stream s) previous current then s else sub_emit current s)"

text \<open>What a fresh subscription of a stream emits when the states arrive in this order.\<close>

definition emissions_of :: "stream \<Rightarrow> obj list \<Rightarrow> obj list" where
  "emissions_of st states = sub_out (fold sub_next states (new_subscription st))"

section \<open>The container\<close>

text \<open>
  The two errors the container throws itself, and the \<^verbatim>\<open>TypeError\<close> of JavaScript
  and of RxJS (a call of something that is not a function, a stream expected where
  there is none).
\<close>

datatype error = Uninitialized | NoTriggerRegistered | TypeError

text \<open>
  A subscription made by \<^verbatim>\<open>connect\<close> for one key. It subscribes to the
  producer twice: \<^verbatim>\<open>combineLatest\<close> does, once, and \<^verbatim>\<open>switchMap\<close> does, anew for
  every value \<^verbatim>\<open>combineLatest\<close> emits. A producer is not modelled beyond the
  values that arrive on these subscriptions. \<open>bsource\<close> names the source that
  feeds the subscription of \<^verbatim>\<open>combineLatest\<close> (bindings of one hot producer share
  it), \<open>blatest\<close> is the producer value \<^verbatim>\<open>combineLatest\<close> holds, \<open>binner\<close>
  counts the inner subscriptions \<^verbatim>\<open>switchMap\<close> has opened on the producer (each
  one discards the one before), \<open>bout\<close> lists the values the derived stream has
  handed to its subscriber, and \<open>bclosed\<close> says that \<^verbatim>\<open>takeUntil\<close> has completed
  it.
\<close>

record binding =
  bkey :: string
  bsource :: nat
  blatest :: "jsval option"
  binner :: nat
  bout :: "jsval list"
  bclosed :: bool

text \<open>The subscription \<^verbatim>\<open>initialize\<close> makes to its optional second argument.\<close>

record input_sub =
  isource :: nat
  iout :: "obj list"
  iclosed :: bool

text \<open>
  \<open>state_val\<close> is \<^verbatim>\<open>state$$.value\<close> (\<open>None\<close> is \<^verbatim>\<open>null\<close>), \<open>pushed\<close> the
  arguments of every \<^verbatim>\<open>state$$.next\<close> so far, \<open>subs\<close> the consumers'
  subscriptions in the order they were made, \<open>triggers\<close> the registry with, for each
  key, how often its \<^verbatim>\<open>ReplaySubject\<close> has fired, \<open>destroyed\<close> whether
  \<^verbatim>\<open>destroy$$\<close> has fired and completed, and \<open>unhandled\<close> the errors thrown inside
  the container's own subscribers (RxJS reports those later and keeps the
  subscription).
\<close>

record container =
  state_val :: "obj option"
  pushed :: "obj list"
  subs :: "subscription list"
  triggers :: "(string \<times> nat) list"
  bindings :: "binding list"
  inputs :: "input_sub list"
  destroyed :: bool
  unhandled :: "error list"

definition new_container :: container where
  "new_container = \<lparr>state_val = None, pushed = [], subs = [], triggers = [], bindings = [],
     inputs = [], destroyed = False, unhandled = []\<rparr>"

text \<open>\<^verbatim>\<open>state$$.next(v)\<close>: the cell takes the value and every subscription is served.\<close>

definition state_next :: "obj \<Rightarrow> container \<Rightarrow> container" where
  "state_next v c = c\<lparr>state_val := Some v, pushed := pushed c @ [v], subs := map (sub_next v) (subs c)\<rparr>"

definition snapshot :: "container \<Rightarrow> error + obj" where
  "snapshot c = (case state_val c of None \<Rightarrow> Inl Uninitialized | Some state \<Rightarrow> Inr state)"

text \<open>The loop of \<^verbatim>\<open>patch\<close> over \<^verbatim>\<open>Object.keys(object)\<close>, from a copy of the state.\<close>

definition merge_fields :: "obj \<Rightarrow> obj \<Rightarrow> obj" where
  "merge_fields current object =
     fold (\<lambda>key newState. AList.update key (get_field object key) newState) (object_keys object) current"

definition patch :: "obj \<Rightarrow> container \<Rightarrow> error + container" where
  "patch object c =
     (case state_val c of
        None \<Rightarrow> Inl Uninitialized
      | Some current \<Rightarrow> Inr (state_next (merge_fields current object) c))"

text \<open>
  The subscriber \<^verbatim>\<open>res => this.patch(res)\<close>: an error thrown by \<^verbatim>\<open>patch\<close> there
  does not reach any caller.
\<close>

definition callback_patch :: "obj \<Rightarrow> container \<Rightarrow> container" where
  "callback_patch object c =
     (case patch object c of Inl e \<Rightarrow> c\<lparr>unhandled := unhandled c @ [e]\<rparr> | Inr c' \<Rightarrow> c')"

definition initialize :: "obj \<Rightarrow> nat option \<Rightarrow> container \<Rightarrow> container" where
  "initialize state inputState c =
     (let c1 = state_next state c
      in case inputState of
           None \<Rightarrow> c1
         | Some src \<Rightarrow> c1\<lparr>inputs := inputs c1 @ [\<lparr>isource = src, iout = [], iclosed = False\<rparr>]\<rparr>)"

text \<open>
  The registry \<^verbatim>\<open>triggers\<close> is a plain object, created as \<^verbatim>\<open>{}\<close>: the read
  \<^verbatim>\<open>this.triggers[key]\<close> gives the \<^verbatim>\<open>ReplaySubject\<close> registered for the key,
  or else, for a key that names a member of \<^verbatim>\<open>Object.prototype\<close>, that inherited
  member (a function or an object, which the test \<^verbatim>\<open>!this.triggers[key]\<close> takes
  for an entry), or else \<^verbatim>\<open>undefined\<close>.
\<close>

definition object_prototype_names :: "string list" where
  "object_prototype_names =
     [''constructor'', ''hasOwnProperty'', ''isPrototypeOf'', ''propertyIsEnumerable'',
      ''toLocaleString'', ''toString'', ''valueOf'', ''__proto__'', ''__defineGetter__'',
      ''__defineSetter__'', ''__lookupGetter__'', ''__lookupSetter__'']"

datatype slot = Registered nat | Inherited | Missing

definition trigger_slot :: "(string \<times> nat) list \<Rightarrow> string \<Rightarrow> slot" where
  "trigger_slot registry key =
     (case map_of registry key of
        Some n \<Rightarrow> Registered n
      | None \<Rightarrow> if key \<in> set object_prototype_names then Inherited else Missing)"

text \<open>
  \<^verbatim>\<open>connect\<close>, the body of its \<^verbatim>\<open>forEach\<close> for one key: a missing trigger is
  created and fired once; then \<^verbatim>\<open>combineLatest([trigger, producer])\<close> is
  subscribed. The trigger replays its firing; the binding starts with no producer
  value and no inner subscription (what the producer sends, be it while it is
  being subscribed to, arrives afterwards, see \<open>produce\<close> below).
  \<^verbatim>\<open>takeUntil(destroy$$)\<close> subscribes to \<^verbatim>\<open>destroy$$\<close> at this moment: a
  \<^verbatim>\<open>Subject\<close> that has completed hands a new subscriber its completion only, which
  \<^verbatim>\<open>takeUntil\<close> ignores, so the binding starts open whether or not the container
  has been destroyed. For a key that names a member of \<^verbatim>\<open>Object.prototype\<close> and
  has no entry, the test finds the inherited member, no trigger is created, and
  \<^verbatim>\<open>combineLatest\<close> fails when it is subscribed, since the member is no stream: the
  error goes to the subscriber, which has no callback for it, so it is reported
  later; the producer is never subscribed to and \<^verbatim>\<open>connect\<close> goes on to its
  next key.
\<close>

definition new_binding :: "string \<Rightarrow> nat \<Rightarrow> binding" where
  "new_binding key producer =
     \<lparr>bkey = key, bsource = producer, blatest = None, binner = 0, bout = [], bclosed = False\<rparr>"

definition connect_key :: "string \<Rightarrow> nat \<Rightarrow> container \<Rightarrow> container" where
  "connect_key key producer c =
     (case trigger_slot (triggers c) key of
        Missing \<Rightarrow>
          c\<lparr>triggers := triggers c @ [(key, Suc 0)],
            bindings := bindings c @ [new_binding key producer]\<rparr>
      | Registered n \<Rightarrow> c\<lparr>bindings := bindings c @ [new_binding key producer]\<rparr>
      | Inherited \<Rightarrow> c\<lparr>unhandled := unhandled c @ [TypeError]\<rparr>)"

definition connect :: "(string \<times> nat) list \<Rightarrow> container \<Rightarrow> container" where
  "connect object c =
     fold (\<lambda>key c. case map_of object key of None \<Rightarrow> c | Some producer \<Rightarrow> connect_key key producer c)
       (object_keys object) c"

text \<open>
  The derived stream of a binding hands over a value \<open>v\<close> whenever
  \<^verbatim>\<open>combineLatest\<close> emits \<^verbatim>\<open>[_, v]\<close>: \<^verbatim>\<open>switchMap\<close> drops its inner
  subscription and subscribes to \<^verbatim>\<open>producer.pipe(startWith(v))\<close>, which hands over
  \<open>v\<close> at once, and the subscriber calls \<^verbatim>\<open>patch({ [key]: v })\<close>. \<open>emits b\<close> is
  the value \<^verbatim>\<open>combineLatest\<close> emits for binding \<open>b\<close>, if it emits. (A hot producer,
  an RxJS \<^verbatim>\<open>Subject\<close>, serves its subscribers in the order they subscribed, and
  the subscription of \<^verbatim>\<open>combineLatest\<close> is older than any inner one: a value it
  produces reaches \<^verbatim>\<open>combineLatest\<close> first, and the inner subscription is gone
  before its turn comes.)
\<close>

definition binding_emit :: "jsval \<Rightarrow> binding \<Rightarrow> binding" where
  "binding_emit v b = b\<lparr>blatest := Some v, binner := Suc (binner b), bout := bout b @ [v]\<rparr>"

fun run_bindings :: "(binding \<Rightarrow> jsval option) \<Rightarrow> binding list \<Rightarrow> container \<Rightarrow> binding list \<times> container" where
  "run_bindings emits [] c = ([], c)"
| "run_bindings emits (b # bs) c =
     (case emits b of
        None \<Rightarrow> (case run_bindings emits bs c of (bs', c') \<Rightarrow> (b # bs', c'))
      | Some v \<Rightarrow>
          (case run_bindings emits bs (callback_patch [(bkey b, v)] c) of
             (bs', c') \<Rightarrow> (binding_emit v b # bs', c')))"

text \<open>
  The source \<open>producer\<close> sends \<open>v\<close> to the subscriptions of \<^verbatim>\<open>combineLatest\<close>
  of the open bindings it feeds, in the order they were made.
\<close>

definition on_produce :: "nat \<Rightarrow> jsval \<Rightarrow> binding \<Rightarrow> jsval option" where
  "on_produce producer v b = (if \<not> bclosed b \<and> bsource b = producer then Some v else None)"

definition produce :: "nat \<Rightarrow> jsval \<Rightarrow> container \<Rightarrow> container" where
  "produce producer v c =
     (case run_bindings (on_produce producer v) (bindings c) c of (bs, c') \<Rightarrow> c'\<lparr>bindings := bs\<rparr>)"

text \<open>
  The value \<open>v\<close> arrives on the inner subscription that \<^verbatim>\<open>switchMap\<close> holds for
  the binding number \<open>i\<close> (a producer that replays to a new subscriber, or one that
  starts anew for every subscriber): it is handed on, and \<^verbatim>\<open>combineLatest\<close> does
  not see it.
\<close>

definition produce_inner :: "nat \<Rightarrow> jsval \<Rightarrow> container \<Rightarrow> container" where
  "produce_inner i v c =
     (if i < length (bindings c) \<and> \<not> bclosed (bindings c ! i) \<and> 0 < binner (bindings c ! i)
      then (callback_patch [(bkey (bindings c ! i), v)] c)
             \<lparr>bindings := (bindings c)[i := (bindings c ! i)\<lparr>bout := bout (bindings c ! i) @ [v]\<rparr>]\<rparr>
      else c)"

text \<open>
  \<^verbatim>\<open>trigger(key)\<close>: the trigger of the key fires, and \<^verbatim>\<open>combineLatest\<close> emits
  for the open bindings of the key that hold a producer value. Without an entry the
  error of the guard is thrown, unless the key names a member of
  \<^verbatim>\<open>Object.prototype\<close>: the guard lets the inherited member pass, it has no
  \<^verbatim>\<open>next\<close>, and the call \<^verbatim>\<open>this.triggers[key].next()\<close> throws a
  \<^verbatim>\<open>TypeError\<close>.
\<close>

definition on_trigger :: "string \<Rightarrow> binding \<Rightarrow> jsval option" where
  "on_trigger key b = (if \<not> bclosed b \<and> bkey b = key then blatest b else None)"

definition trigger :: "string \<Rightarrow> container \<Rightarrow> error + container" where
  "trigger key c =
     (case trigger_slot (triggers c) key of
        Missing \<Rightarrow> Inl NoTriggerRegistered
      | Inherited \<Rightarrow> Inl TypeError
      | Registered n \<Rightarrow>
          (let c0 = c\<lparr>triggers := AList.update key (Suc n) (triggers c)\<rparr>
           in case run_bindings (on_trigger key) (bindings c0) c0 of
                (bs, c') \<Rightarrow> Inr (c'\<lparr>bindings := bs\<rparr>)))"

text \<open>The source \<open>src\<close> handed to \<^verbatim>\<open>initialize\<close> produces the partial \<open>object\<close>.\<close>

fun run_inputs :: "nat \<Rightarrow> obj \<Rightarrow> input_sub list \<Rightarrow> container \<Rightarrow> input_sub list \<times> container" where
  "run_inputs src object [] c = ([], c)"
| "run_inputs src object (i # is) c =
     (if \<not> iclosed i \<and> isource i = src
      then (case run_inputs src object is (callback_patch object c) of
              (is', c') \<Rightarrow> (i\<lparr>iout := iout i @ [object]\<rparr> # is', c'))
      else (case run_inputs src object is c of (is', c') \<Rightarrow> (i # is', c')))"

definition input_emit :: "nat \<Rightarrow> obj \<Rightarrow> container \<Rightarrow> container" where
  "input_emit src object c =
     (case run_inputs src object (inputs c) c of (is, c') \<Rightarrow> c'\<lparr>inputs := is\<rparr>)"

text \<open>
  \<^verbatim>\<open>ngOnDestroy\<close>: \<^verbatim>\<open>destroy$$.next()\<close> completes every subscription that
  \<^verbatim>\<open>takeUntil\<close> has registered on \<^verbatim>\<open>destroy$$\<close>, and \<^verbatim>\<open>destroy$$.complete()\<close>
  stops the subject, so that a second call does nothing.
\<close>

definition ngOnDestroy :: "container \<Rightarrow> container" where
  "ngOnDestroy c =
     (if destroyed c then c
      else c\<lparr>subs := map (\<lambda>s. s\<lparr>sub_closed := True\<rparr>) (subs c),
             bindings := map (\<lambda>b. b\<lparr>bclosed := True\<rparr>) (bindings c),
             inputs := map (\<lambda>i. i\<lparr>iclosed := True\<rparr>) (inputs c),
             destroyed := True\<rparr>)"

text \<open>
  A consumer subscribes to a stream: \<^verbatim>\<open>takeUntil\<close> subscribes to \<^verbatim>\<open>destroy$$\<close>
  (open, as for a binding), then the \<^verbatim>\<open>BehaviorSubject\<close> hands over its value,
  which passes \<^verbatim>\<open>filter\<close> unless it is \<^verbatim>\<open>null\<close>.
\<close>

definition subscribe :: "stream \<Rightarrow> container \<Rightarrow> container" where
  "subscribe st c =
     c\<lparr>subs := subs c @
        [case state_val c of
           None \<Rightarrow> new_subscription st
         | Some v \<Rightarrow> sub_next v (new_subscription st)]\<rparr>"

definition pick :: "string list \<Rightarrow> (string \<times> stream) list" where
  "pick keys = fold (\<lambda>key returnObj. AList.update key (Select key) returnObj) keys []"

section \<open>Histories of calls\<close>

text \<open>
  What can happen to a container: calls of its methods, subscriptions of consumers,
  and values arriving from producers and input sources. A call that throws leaves
  the container as it was. A producer that sends values while it is being subscribed
  to is a \<^verbatim>\<open>connect\<close> followed by the arrival of those values.
\<close>

datatype event =
  Initialize obj "nat option"
| Patch obj
| Connect "(string \<times> nat) list"
| Trigger string
| Subscribe stream
| Produce nat jsval
| ProduceInner nat jsval
| InputEmit nat obj
| Destroy

fun step :: "event \<Rightarrow> container \<Rightarrow> container" where
  "step (Initialize state inputState) c = initialize state inputState c"
| "step (Patch object) c = (case patch object c of Inl e \<Rightarrow> c | Inr c' \<Rightarrow> c')"
| "step (Connect object) c = connect object c"
| "step (Trigger key) c = (case trigger key c of Inl e \<Rightarrow> c | Inr c' \<Rightarrow> c')"
| "step (Subscribe st) c = subscribe st c"
| "step (Produce producer v) c = produce producer v c"
| "step (ProduceInner i v) c = produce_inner i v c"
| "step (InputEmit src object) c = input_emit src object c"
| "step Destroy c = ngOnDestroy c"

definition run :: "event list \<Rightarrow> container \<Rightarrow> container" where
  "run es c = fold step es c"

section \<open>The specification's merge\<close>

text \<open>
  The field-wise merge as the specification words it, on records as finite maps: the
  fields present in the partial are replaced, every other field is kept.
\<close>

definition spec_merge :: "(string \<rightharpoonup> jsval) \<Rightarrow> (string \<rightharpoonup> jsval) \<Rightarrow> (string \<rightharpoonup> jsval)" where
  "spec_merge state partial = (\<lambda>key. case partial key of None \<Rightarrow> state key | Some v \<Rightarrow> Some v)"

section \<open>Notions used in the statements\<close>

text \<open>Whether a call in a history is an \<^verbatim>\<open>initialize\<close>, and whether it connects a key.\<close>

fun is_initialize :: "event \<Rightarrow> bool" where
  "is_initialize (Initialize state inputState) = True"
| "is_initialize e = False"

fun connects :: "string \<Rightarrow> event \<Rightarrow> bool" where
  "connects key (Connect object) = (key \<in> set (object_keys object))"
| "connects key e = False"

text \<open>
  The state a \<^verbatim>\<open>BehaviorSubject\<close> hands a new subscriber that passes
  \<^verbatim>\<open>filter\<close>: none while the cell holds \<^verbatim>\<open>null\<close>.
\<close>

definition current_states :: "container \<Rightarrow> obj list" where
  "current_states c = (case state_val c of None \<Rightarrow> [] | Some v \<Rightarrow> [v])"

text \<open>
  A binding after its derived stream has or has not handed over a value, and the
  arguments of the \<^verbatim>\<open>patch\<close> calls its subscriber makes, binding after binding.
\<close>

definition after_emit :: "(binding \<Rightarrow> jsval option) \<Rightarrow> binding \<Rightarrow> binding" where
  "after_emit emits b = (case emits b of None \<Rightarrow> b | Some v \<Rightarrow> binding_emit v b)"

definition handed :: "(binding \<Rightarrow> jsval option) \<Rightarrow> binding list \<Rightarrow> obj list" where
  "handed emits bs = concat (map (\<lambda>b. case emits b of None \<Rightarrow> [] | Some v \<Rightarrow> [[(bkey b, v)]]) bs)"

definition input_open :: "nat \<Rightarrow> input_sub \<Rightarrow> bool" where
  "input_open src i = (\<not> iclosed i \<and> isource i = src)"

definition after_input :: "nat \<Rightarrow> obj \<Rightarrow> input_sub \<Rightarrow> input_sub" where
  "after_input src object i = (if input_open src i then i\<lparr>iout := iout i @ [object]\<rparr> else i)"

text \<open>\<open>c'\<close> is \<open>c\<close> after the states \<open>vs\<close> have been pushed into the cell, one by one.\<close>

definition pushes_to :: "container \<Rightarrow> obj list \<Rightarrow> container \<Rightarrow> bool" where
  "pushes_to c vs c' = (pushed c' = pushed c @ vs \<and> subs c' = map (fold sub_next vs) (subs c))"

text \<open>What holds of a subscription that was made fresh and has been served \<open>states\<close>.\<close>

definition fresh_inv :: "stream \<Rightarrow> obj list \<Rightarrow> subscription \<Rightarrow> bool" where
  "fresh_inv st states s =
     (\<not> sub_closed s \<and> sub_stream s = st \<and>
      sub_prev s = (if sub_out s = [] then None else Some (last (sub_out s))) \<and>
      (sub_out s = []) = (states = []))"

text \<open>The loop of \<^verbatim>\<open>connect\<close> over some of the keys.\<close>

definition connect_fold :: "(string \<times> nat) list \<Rightarrow> string list \<Rightarrow> container \<Rightarrow> container" where
  "connect_fold object ks c =
     fold (\<lambda>key c. case map_of object key of None \<Rightarrow> c | Some producer \<Rightarrow> connect_key key producer c) ks c"

text \<open>
  From \<open>bs\<close> to \<open>bs'\<close> no binding is lost, a closed binding is unchanged and every
  binding keeps its key.
\<close>

definition bindings_kept :: "binding list \<Rightarrow> binding list \<Rightarrow> bool" where
  "bindings_kept bs bs' =
     (length bs \<le> length bs' \<and>
      (\<forall>i<length bs. (bclosed (bs ! i) \<longrightarrow> bs' ! i = bs ! i) \<and> bkey (bs' ! i) = bkey (bs ! i)))"

text \<open>
  The values that reach binding number \<open>i\<close> from its producer when \<open>e\<close> happens to
  \<open>c\<close>, on the subscription of \<^verbatim>\<open>combineLatest\<close> or on the inner one of
  \<^verbatim>\<open>switchMap\<close>; those that have reached it over a history; and the last of
  them, the producer's latest known value.
\<close>

fun arrives :: "nat \<Rightarrow> event \<Rightarrow> container \<Rightarrow> jsval list" where
  "arrives i (Produce producer v) c =
     (if i < length (bindings c) \<and> \<not> bclosed (bindings c ! i) \<and> bsource (bindings c ! i) = producer
      then [v] else [])"
| "arrives i (ProduceInner j v) c =
     (if j = i \<and> i < length (bindings c) \<and> \<not> bclosed (bindings c ! i) \<and> 0 < binner (bindings c ! i)
      then [v] else [])"
| "arrives i e c = []"

fun produced :: "nat \<Rightarrow> event list \<Rightarrow> container \<Rightarrow> jsval list" where
  "produced i [] c = []"
| "produced i (e # es) c = arrives i e c @ produced i es (step e c)"

definition latest_known :: "nat \<Rightarrow> event list \<Rightarrow> jsval option" where
  "latest_known i es =
     (if produced i es new_container = [] then None else Some (last (produced i es new_container)))"

text \<open>Whether an event is the arrival of a value on an inner subscription.\<close>

fun is_inner :: "event \<Rightarrow> bool" where
  "is_inner (ProduceInner i v) = True"
| "is_inner e = False"

text \<open>
  The arguments of the \<^verbatim>\<open>patch\<close> calls for the values the derived streams have
  handed on between \<open>bs\<close> and \<open>bs'\<close>, binding after binding.
\<close>

definition newly_handed :: "binding list \<Rightarrow> binding list \<Rightarrow> obj list" where
  "newly_handed bs bs' =
     concat (map (\<lambda>(b, b'). map (\<lambda>v. [(bkey b, v)]) (drop (length (bout b)) (bout b'))) (zip bs bs'))"

section \<open>The patch engine\<close>

lemma map_of_fold_update:
  "map_of (fold (\<lambda>key newState. AList.update key (f key) newState) ks current) =
     (\<lambda>k. if k \<in> set ks then Some (f k) else map_of current k)"
proof (induction ks arbitrary: current)
  case Nil
  then show ?case by simp
next
  case (Cons a ks)
  show ?case by (auto simp: Cons.IH update_conv')
qed

lemma get_field_of_key:
  "key \<in> set (object_keys object) \<Longrightarrow> map_of object key = Some (get_field object key)"
  by (cases "map_of object key") (auto simp: get_field_def object_keys_def map_of_eq_None_iff)

lemma map_of_merge_fields:
  "map_of (merge_fields current object) = spec_merge (map_of current) (map_of object)"
proof
  fix k
  show "map_of (merge_fields current object) k = spec_merge (map_of current) (map_of object) k"
  proof (cases "k \<in> set (object_keys object)")
    case True
    then show ?thesis
      using get_field_of_key [OF True]
      by (simp add: merge_fields_def map_of_fold_update spec_merge_def split: option.splits)
  next
    case False
    then have "map_of object k = None"
      by (simp add: object_keys_def map_of_eq_None_iff)
    with False show ?thesis
      by (simp add: merge_fields_def map_of_fold_update spec_merge_def)
  qed
qed

lemma state_val_state_next: "state_val (state_next v c) = Some v"
  by (simp add: state_next_def)

lemma state_val_initialize: "state_val (initialize s0 inputState c) = Some s0"
  by (simp add: initialize_def Let_def state_next_def split: option.splits)

lemma run_patches:
  "state_val c = Some s \<Longrightarrow>
   \<exists>state. state_val (run (map Patch patches) c) = Some state \<and>
     map_of state = foldl spec_merge (map_of s) (map map_of patches)"
proof (induction patches arbitrary: c s)
  case Nil
  then show ?case by (simp add: run_def)
next
  case (Cons p ps)
  let ?c = "state_next (merge_fields s p) c"
  have "state_val ?c = Some (merge_fields s p)" by (rule state_val_state_next)
  from Cons.IH [OF this] Cons.prems show ?case
    by (simp add: run_def patch_def map_of_merge_fields)
qed

text \<open>
  C1. Whatever the container was before, after \<^verbatim>\<open>initialize(s0)\<close> and any sequence
  of \<^verbatim>\<open>patch\<close> calls, \<^verbatim>\<open>snapshot\<close> returns a state (it does not throw) whose
  fields are those of the left fold of the specification's field-wise merge over
  \<open>s0\<close> and the patch arguments, in call order.
\<close>

theorem snapshot_is_fold_of_merges:
  "\<exists>state. snapshot (run (map Patch patches) (initialize s0 inputState c)) = Inr state \<and>
     map_of state = foldl spec_merge (map_of s0) (map map_of patches)"
proof -
  have "state_val (initialize s0 inputState c) = Some s0"
    by (rule state_val_initialize)
  from run_patches [OF this, of patches] show ?thesis
    by (auto simp: snapshot_def)
qed

text \<open>
  C7. On an initialized container \<^verbatim>\<open>patch\<close> succeeds, and every field whose key
  is not a key of the partial is in the new state exactly what it was in the state
  before: the same own property with the same value (the same reference, for an
  object), or as absent as before.
\<close>

theorem patch_keeps_other_fields:
  assumes "state_val c = Some current" and "key \<notin> set (object_keys object)"
  shows "\<exists>c' new. patch object c = Inr c' \<and> state_val c' = Some new \<and>
           map_of new key = map_of current key \<and> get_field new key = get_field current key"
proof -
  from assms(2) have "map_of object key = None"
    by (simp add: object_keys_def map_of_eq_None_iff)
  then have "map_of (merge_fields current object) key = map_of current key"
    by (simp add: map_of_merge_fields spec_merge_def)
  with assms(1) show ?thesis
    by (simp add: patch_def state_val_state_next get_field_def)
qed

theorem patch_keeps_other_fields_witness:
  "state_val (initialize [(''a'', JNum 0), (''b'', JRef 7)] None new_container) =
     Some [(''a'', JNum 0), (''b'', JRef 7)] \<and>
   ''b'' \<notin> set (object_keys [(''a'', JNum 1)]) \<and>
   (\<exists>c' new. patch [(''a'', JNum 1)] (initialize [(''a'', JNum 0), (''b'', JRef 7)] None new_container) = Inr c' \<and>
      state_val c' = Some new \<and> map_of new ''b'' = Some (JRef 7) \<and> get_field new ''b'' = JRef 7)"
proof -
  have h1: "state_val (initialize [(''a'', JNum 0), (''b'', JRef 7)] None new_container) =
      Some [(''a'', JNum 0), (''b'', JRef 7)]"
    by (rule state_val_initialize)
  have h2: "''b'' \<notin> set (object_keys [(''a'', JNum 1)])"
    by (simp add: object_keys_def)
  from patch_keeps_other_fields [OF h1 h2] h1 h2 show ?thesis
    by (simp add: get_field_def)
qed

lemma sub_out_sub_next:
  "sub_out (sub_next v s) = sub_out s \<or> sub_out (sub_next v s) = sub_out s @ [v]"
  by (simp add: sub_next_def sub_emit_def split: option.splits)

text \<open>
  C2. On an initialized container one call of \<^verbatim>\<open>patch\<close> succeeds, computes the
  merged state (the specification's field-wise merge of the current state and the
  partial), and pushes into the cell exactly once, that state, however many fields
  the partial has. Every subscription has after the call emitted what it had before,
  or that and the merged state: no state in between reaches any subscriber.
\<close>

theorem patch_pushes_once:
  assumes "state_val c = Some current"
  shows "\<exists>c'. patch object c = Inr c' \<and>
           map_of (merge_fields current object) = spec_merge (map_of current) (map_of object) \<and>
           state_val c' = Some (merge_fields current object) \<and>
           pushed c' = pushed c @ [merge_fields current object] \<and>
           list_all2 (\<lambda>s s'. sub_out s' = sub_out s \<or> sub_out s' = sub_out s @ [merge_fields current object])
             (subs c) (subs c')"
proof -
  have "list_all2 (\<lambda>s s'. sub_out s' = sub_out s \<or> sub_out s' = sub_out s @ [v]) xs (map (sub_next v) xs)" for v xs
    by (induction xs) (simp_all add: sub_out_sub_next)
  with assms show ?thesis
    by (simp add: patch_def state_next_def map_of_merge_fields)
qed

theorem patch_pushes_once_witness:
  "state_val (subscribe (Select ''a'') (subscribe StateStream
       (initialize [(''a'', JNum 0), (''b'', JNum 0), (''c'', JNum 0)] None new_container))) =
     Some [(''a'', JNum 0), (''b'', JNum 0), (''c'', JNum 0)] \<and>
   (\<exists>c'. patch [(''a'', JNum 1), (''b'', JNum 2)] (subscribe (Select ''a'') (subscribe StateStream
       (initialize [(''a'', JNum 0), (''b'', JNum 0), (''c'', JNum 0)] None new_container))) = Inr c' \<and>
      map_of (merge_fields [(''a'', JNum 0), (''b'', JNum 0), (''c'', JNum 0)] [(''a'', JNum 1), (''b'', JNum 2)]) =
        spec_merge (map_of [(''a'', JNum 0), (''b'', JNum 0), (''c'', JNum 0)]) (map_of [(''a'', JNum 1), (''b'', JNum 2)]) \<and>
      state_val c' = Some (merge_fields [(''a'', JNum 0), (''b'', JNum 0), (''c'', JNum 0)] [(''a'', JNum 1), (''b'', JNum 2)]) \<and>
      pushed c' = pushed (subscribe (Select ''a'') (subscribe StateStream
          (initialize [(''a'', JNum 0), (''b'', JNum 0), (''c'', JNum 0)] None new_container))) @
        [merge_fields [(''a'', JNum 0), (''b'', JNum 0), (''c'', JNum 0)] [(''a'', JNum 1), (''b'', JNum 2)]] \<and>
      list_all2 (\<lambda>s s'. sub_out s' = sub_out s \<or>
          sub_out s' = sub_out s @ [merge_fields [(''a'', JNum 0), (''b'', JNum 0), (''c'', JNum 0)] [(''a'', JNum 1), (''b'', JNum 2)]])
        (subs (subscribe (Select ''a'') (subscribe StateStream
           (initialize [(''a'', JNum 0), (''b'', JNum 0), (''c'', JNum 0)] None new_container))))
        (subs c')) \<and>
   merge_fields [(''a'', JNum 0), (''b'', JNum 0), (''c'', JNum 0)] [(''a'', JNum 1), (''b'', JNum 2)] =
     [(''a'', JNum 1), (''b'', JNum 2), (''c'', JNum 0)] \<and>
   pushed (step (Patch [(''a'', JNum 1), (''b'', JNum 2)]) (subscribe (Select ''a'') (subscribe StateStream
       (initialize [(''a'', JNum 0), (''b'', JNum 0), (''c'', JNum 0)] None new_container)))) =
     [[(''a'', JNum 0), (''b'', JNum 0), (''c'', JNum 0)], [(''a'', JNum 1), (''b'', JNum 2), (''c'', JNum 0)]] \<and>
   map seen (subs (step (Patch [(''a'', JNum 1), (''b'', JNum 2)]) (subscribe (Select ''a'') (subscribe StateStream
       (initialize [(''a'', JNum 0), (''b'', JNum 0), (''c'', JNum 0)] None new_container))))) =
     [[EState [(''a'', JNum 0), (''b'', JNum 0), (''c'', JNum 0)],
       EState [(''a'', JNum 1), (''b'', JNum 2), (''c'', JNum 0)]],
      [EValue (JNum 0), EValue (JNum 1)]]"
proof -
  let ?c = "subscribe (Select ''a'') (subscribe StateStream
       (initialize [(''a'', JNum 0), (''b'', JNum 0), (''c'', JNum 0)] None new_container))"
  have h: "state_val ?c = Some [(''a'', JNum 0), (''b'', JNum 0), (''c'', JNum 0)]"
    by code_simp
  note t = patch_pushes_once [OF h, of "[(''a'', JNum 1), (''b'', JNum 2)]"]
  have e: "merge_fields [(''a'', JNum 0), (''b'', JNum 0), (''c'', JNum 0)] [(''a'', JNum 1), (''b'', JNum 2)] =
     [(''a'', JNum 1), (''b'', JNum 2), (''c'', JNum 0)] \<and>
   pushed (step (Patch [(''a'', JNum 1), (''b'', JNum 2)]) ?c) =
     [[(''a'', JNum 0), (''b'', JNum 0), (''c'', JNum 0)], [(''a'', JNum 1), (''b'', JNum 2), (''c'', JNum 0)]] \<and>
   map seen (subs (step (Patch [(''a'', JNum 1), (''b'', JNum 2)]) ?c)) =
     [[EState [(''a'', JNum 0), (''b'', JNum 0), (''c'', JNum 0)],
       EState [(''a'', JNum 1), (''b'', JNum 2), (''c'', JNum 0)]],
      [EValue (JNum 0), EValue (JNum 1)]]"
    by code_simp
  show ?thesis by (rule conjI [OF h conjI [OF t e]])
qed

section \<open>Closed forms of the operations\<close>

lemma run_bindings_eq:
  "run_bindings emits bs c = (map (after_emit emits) bs, fold callback_patch (handed emits bs) c)"
  by (induction bs arbitrary: c) (simp_all add: after_emit_def handed_def split: option.splits)

lemma run_inputs_eq:
  "run_inputs src object is c =
     (map (after_input src object) is,
      fold callback_patch (map (\<lambda>i. object) (filter (input_open src) is)) c)"
  by (induction "is" arbitrary: c) (simp_all add: after_input_def input_open_def)

lemma callback_patch_frame:
  "triggers (callback_patch p c) = triggers c"
  "bindings (callback_patch p c) = bindings c"
  "inputs (callback_patch p c) = inputs c"
  "destroyed (callback_patch p c) = destroyed c"
  by (simp_all add: callback_patch_def patch_def state_next_def split: option.splits)

lemma fold_callback_patch_frame:
  "triggers (fold callback_patch ps c) = triggers c"
  "bindings (fold callback_patch ps c) = bindings c"
  "inputs (fold callback_patch ps c) = inputs c"
  "destroyed (fold callback_patch ps c) = destroyed c"
  by (induction ps arbitrary: c) (simp_all add: callback_patch_frame)

lemma pushes_to_refl: "pushes_to c [] c"
  by (simp add: pushes_to_def)

lemma pushes_to_trans: "pushes_to c vs c' \<Longrightarrow> pushes_to c' ws c'' \<Longrightarrow> pushes_to c (vs @ ws) c''"
  by (simp add: pushes_to_def)

lemma pushes_to_state_next: "pushes_to c [v] (state_next v c)"
  by (simp add: pushes_to_def state_next_def)

lemma pushes_to_callback_patch: "\<exists>vs. pushes_to c vs (callback_patch p c)"
proof (cases "state_val c")
  case None
  then have "pushes_to c [] (callback_patch p c)"
    by (simp add: callback_patch_def patch_def pushes_to_def)
  then show ?thesis ..
next
  case (Some s)
  then have "callback_patch p c = state_next (merge_fields s p) c"
    by (simp add: callback_patch_def patch_def)
  then show ?thesis using pushes_to_state_next by metis
qed

lemma pushes_to_fold_callback_patch: "\<exists>vs. pushes_to c vs (fold callback_patch ps c)"
proof (induction ps arbitrary: c)
  case Nil
  show ?case using pushes_to_refl by auto
next
  case (Cons p ps)
  obtain vs where 1: "pushes_to c vs (callback_patch p c)"
    using pushes_to_callback_patch by blast
  obtain ws where 2: "pushes_to (callback_patch p c) ws (fold callback_patch ps (callback_patch p c))"
    using Cons by blast
  from pushes_to_trans [OF 1 2] show ?case by auto
qed

lemma produce_eq:
  "produce producer v c =
     (fold callback_patch (handed (on_produce producer v) (bindings c)) c)
       \<lparr>bindings := map (after_emit (on_produce producer v)) (bindings c)\<rparr>"
  by (simp add: produce_def run_bindings_eq)

lemma trigger_slot_Registered:
  "(trigger_slot registry key = Registered n) = (map_of registry key = Some n)"
  by (simp add: trigger_slot_def split: option.splits)

lemma trigger_eq:
  "trigger key c =
     (case trigger_slot (triggers c) key of
        Missing \<Rightarrow> Inl NoTriggerRegistered
      | Inherited \<Rightarrow> Inl TypeError
      | Registered n \<Rightarrow> Inr ((fold callback_patch (handed (on_trigger key) (bindings c))
                          (c\<lparr>triggers := AList.update key (Suc n) (triggers c)\<rparr>))
                       \<lparr>bindings := map (after_emit (on_trigger key)) (bindings c)\<rparr>))"
  by (simp add: trigger_def run_bindings_eq Let_def split: slot.splits)

lemma input_emit_eq:
  "input_emit src object c =
     (fold callback_patch (map (\<lambda>i. object) (filter (input_open src) (inputs c))) c)
       \<lparr>inputs := map (after_input src object) (inputs c)\<rparr>"
  by (simp add: input_emit_def run_inputs_eq)

lemma produce_inner_eq:
  "produce_inner i v c = c \<or>
   produce_inner i v c =
     (fold callback_patch [[(bkey (bindings c ! i), v)]] c)
       \<lparr>bindings := (bindings c)[i := (bindings c ! i)\<lparr>bout := bout (bindings c ! i) @ [v]\<rparr>]\<rparr>"
  by (simp add: produce_inner_def)

lemma connect_frame:
  "subs (connect object c) = subs c" "pushed (connect object c) = pushed c"
  "inputs (connect object c) = inputs c" "destroyed (connect object c) = destroyed c"
proof -
  have "subs (fold (\<lambda>key c. case map_of object key of None \<Rightarrow> c | Some producer \<Rightarrow> connect_key key producer c) ks c) = subs c
     \<and> pushed (fold (\<lambda>key c. case map_of object key of None \<Rightarrow> c | Some producer \<Rightarrow> connect_key key producer c) ks c) = pushed c
     \<and> inputs (fold (\<lambda>key c. case map_of object key of None \<Rightarrow> c | Some producer \<Rightarrow> connect_key key producer c) ks c) = inputs c
     \<and> destroyed (fold (\<lambda>key c. case map_of object key of None \<Rightarrow> c | Some producer \<Rightarrow> connect_key key producer c) ks c) = destroyed c" for ks
    by (induction ks arbitrary: c) (auto simp: connect_key_def split: option.splits slot.splits)
  then show "subs (connect object c) = subs c" "pushed (connect object c) = pushed c"
  "inputs (connect object c) = inputs c" "destroyed (connect object c) = destroyed c"
    by (simp_all add: connect_def)
qed

lemma fold_sub_next_closed: "sub_closed s \<Longrightarrow> fold sub_next vs s = s"
  by (induction vs) (simp_all add: sub_next_def)

lemma step_pushes:
  assumes "e \<noteq> Destroy"
  shows "\<exists>vs new. pushed (step e c) = pushed c @ vs \<and>
           subs (step e c) = map (fold sub_next vs) (subs c) @ new"
proof -
  have fold_case: "\<exists>vs new. pushed (fold callback_patch ps c0) = pushed c @ vs \<and>
           subs (fold callback_patch ps c0) = map (fold sub_next vs) (subs c) @ new"
    if "pushed c0 = pushed c" "subs c0 = subs c" for ps c0
  proof -
    obtain vs where "pushes_to c0 vs (fold callback_patch ps c0)"
      using pushes_to_fold_callback_patch by blast
    with that have "pushed (fold callback_patch ps c0) = pushed c @ vs \<and>
           subs (fold callback_patch ps c0) = map (fold sub_next vs) (subs c) @ []"
      by (simp add: pushes_to_def)
    then show ?thesis by blast
  qed
  have next_case: "\<exists>vs new. pushed (state_next v c) = pushed c @ vs \<and>
           subs (state_next v c) = map (fold sub_next vs) (subs c) @ new" for v
  proof -
    have "pushed (state_next v c) = pushed c @ [v] \<and>
           subs (state_next v c) = map (fold sub_next [v]) (subs c) @ []"
      by (simp add: state_next_def)
    then show ?thesis by blast
  qed
  have none_case: "\<exists>vs new. pushed c = pushed c @ vs \<and> subs c @ extra = map (fold sub_next vs) (subs c) @ new" for extra
  proof -
    have "pushed c = pushed c @ [] \<and> subs c @ extra = map (fold sub_next []) (subs c) @ extra"
      by simp
    then show ?thesis by blast
  qed
  show ?thesis
  proof (cases e)
    case (Initialize s inp)
    with next_case [of s] show ?thesis
      by (simp add: initialize_def Let_def split: option.splits)
  next
    case (Patch p)
    with next_case none_case [of "[]"] show ?thesis
      by (simp add: patch_def split: option.splits)
  next
    case (Connect object)
    with none_case [of "[]"] show ?thesis by (simp add: connect_frame)
  next
    case (Trigger key)
    show ?thesis
    proof (cases "trigger_slot (triggers c) key")
      case Missing
      with Trigger none_case [of "[]"] show ?thesis by (simp add: trigger_eq)
    next
      case Inherited
      with Trigger none_case [of "[]"] show ?thesis by (simp add: trigger_eq)
    next
      case (Registered n)
      with Trigger fold_case [of "c\<lparr>triggers := AList.update key (Suc n) (triggers c)\<rparr>"
          "handed (on_trigger key) (bindings c)"]
      show ?thesis by (simp add: trigger_eq)
    qed
  next
    case (Subscribe st)
    with none_case show ?thesis by (simp add: subscribe_def)
  next
    case (Produce p v)
    with fold_case [of c "handed (on_produce p v) (bindings c)"] show ?thesis
      by (simp add: produce_eq)
  next
    case (ProduceInner i v)
    from produce_inner_eq [of i v c] show ?thesis
    proof
      assume "produce_inner i v c = c"
      with ProduceInner none_case [of "[]"] show ?thesis by simp
    next
      assume "produce_inner i v c =
        (fold callback_patch [[(bkey (bindings c ! i), v)]] c)
          \<lparr>bindings := (bindings c)[i := (bindings c ! i)\<lparr>bout := bout (bindings c ! i) @ [v]\<rparr>]\<rparr>"
      with ProduceInner fold_case [of c "[[(bkey (bindings c ! i), v)]]"] show ?thesis
        by simp
    qed
  next
    case (InputEmit src object)
    with fold_case [of c "map (\<lambda>i. object) (filter (input_open src) (inputs c))"] show ?thesis
      by (simp add: input_emit_eq)
  next
    case Destroy
    with assms show ?thesis by simp
  qed
qed

lemma step_closed_sub:
  assumes "i < length (subs c)" "sub_closed (subs c ! i)"
  shows "i < length (subs (step e c)) \<and> subs (step e c) ! i = subs c ! i"
proof (cases "e = Destroy")
  case True
  with assms show ?thesis by (simp add: ngOnDestroy_def)
next
  case False
  from step_pushes [OF False, of c] obtain vs new where
    "subs (step e c) = map (fold sub_next vs) (subs c) @ new" by blast
  with assms show ?thesis by (simp add: nth_append fold_sub_next_closed)
qed

lemma run_closed_sub:
  "i < length (subs c) \<Longrightarrow> sub_closed (subs c ! i) \<Longrightarrow>
   i < length (subs (run es c)) \<and> subs (run es c) ! i = subs c ! i"
proof (induction es arbitrary: c)
  case Nil
  then show ?case by (simp add: run_def)
next
  case (Cons e es)
  from step_closed_sub [OF Cons.prems, of e]
  have 1: "i < length (subs (step e c))" and 2: "subs (step e c) ! i = subs c ! i" by simp_all
  from 2 Cons.prems have 3: "sub_closed (subs (step e c) ! i)" by simp
  from Cons.IH [OF 1 3] 2 show ?case by (simp add: run_def)
qed

section \<open>Initialization\<close>

lemma state_val_callback_patch: "(state_val (callback_patch object c) = None) = (state_val c = None)"
  by (simp add: callback_patch_def patch_def state_next_def split: option.splits)

lemma state_val_fold_callback_patch:
  "(state_val (fold callback_patch ps c) = None) = (state_val c = None)"
  by (induction ps arbitrary: c) (simp_all add: state_val_callback_patch)

lemma state_val_step:
  "(state_val (step e c) = None) = (state_val c = None \<and> \<not> is_initialize e)"
proof (cases e)
  case (Initialize s i)
  then show ?thesis by (simp add: state_val_initialize)
next
  case (Patch p)
  then show ?thesis by (simp add: patch_def state_next_def split: option.splits)
next
  case (Connect object)
  have "state_val (connect_fold object ks c) = state_val c" for ks
    unfolding connect_fold_def
    by (induction ks arbitrary: c) (auto simp: connect_key_def split: option.splits slot.splits)
  with Connect show ?thesis by (simp add: connect_def connect_fold_def)
next
  case (Trigger key)
  then show ?thesis
    by (simp add: trigger_eq state_val_fold_callback_patch split: slot.splits)
next
  case (Subscribe st)
  then show ?thesis by (simp add: subscribe_def)
next
  case (Produce p v)
  then show ?thesis by (simp add: produce_eq state_val_fold_callback_patch)
next
  case (ProduceInner i v)
  then show ?thesis by (simp add: produce_inner_def state_val_callback_patch)
next
  case (InputEmit src object)
  then show ?thesis by (simp add: input_emit_eq state_val_fold_callback_patch)
next
  case Destroy
  then show ?thesis by (simp add: ngOnDestroy_def)
qed

lemma state_val_run:
  "(state_val (run es c) = None) = (state_val c = None \<and> \<not> list_ex is_initialize es)"
proof (induction es arbitrary: c)
  case Nil
  then show ?case by (simp add: run_def)
next
  case (Cons e es)
  have "run (e # es) c = run es (step e c)" by (simp add: run_def)
  then show ?case by (auto simp: Cons.IH state_val_step)
qed

text \<open>
  C8. Over every history of a new container, \<^verbatim>\<open>snapshot\<close> and \<^verbatim>\<open>patch\<close> each
  throw \<open>Uninitialized\<close> (the result of the call itself) exactly when the history
  holds no \<^verbatim>\<open>initialize\<close>, and return normally exactly when it holds one; and
  after an \<^verbatim>\<open>initialize\<close> on any container, whatever follows, neither throws.
\<close>

theorem uninitialized_iff_no_initialize:
  "(snapshot (run es new_container) = Inl Uninitialized) = (\<not> list_ex is_initialize es) \<and>
   (patch object (run es new_container) = Inl Uninitialized) = (\<not> list_ex is_initialize es) \<and>
   (\<exists>state. snapshot (run es new_container) = Inr state) = list_ex is_initialize es \<and>
   (\<exists>c'. patch object (run es new_container) = Inr c') = list_ex is_initialize es \<and>
   (\<exists>state. snapshot (run es' (initialize s0 inputState c)) = Inr state) \<and>
   (\<exists>c'. patch object (run es' (initialize s0 inputState c)) = Inr c')"
proof -
  have a: "(state_val (run es new_container) = None) = (\<not> list_ex is_initialize es)"
    by (simp add: state_val_run new_container_def)
  have b: "state_val (run es' (initialize s0 inputState c)) \<noteq> None"
    by (simp add: state_val_run state_val_initialize)
  from a b show ?thesis
    by (auto simp: snapshot_def patch_def split: option.splits)
qed

section \<open>The selection engine\<close>

lemma fresh_inv_next:
  "fresh_inv st states s \<Longrightarrow> fresh_inv st (states @ [x]) (sub_next x s)"
  by (simp add: fresh_inv_def sub_next_def sub_emit_def split: option.splits)

lemma fresh_fold_invariant:
  "fresh_inv st states (fold sub_next states (new_subscription st))"
proof (induction states rule: rev_induct)
  case Nil
  then show ?case by (simp add: new_subscription_def fresh_inv_def)
next
  case (snoc x xs)
  from fresh_inv_next [OF snoc] show ?case by simp
qed

lemma emissions_of_Nil: "emissions_of st [] = []"
  by (simp add: emissions_of_def new_subscription_def)

lemma emissions_of_empty_iff: "(emissions_of st states = []) = (states = [])"
  using fresh_fold_invariant [of st states] by (simp add: emissions_of_def fresh_inv_def)

lemma emissions_of_snoc:
  "emissions_of st (states @ [current]) =
     (if states = [] \<or> \<not> comparator st (last (emissions_of st states)) current
      then emissions_of st states @ [current] else emissions_of st states)"
proof -
  define s where "s = fold sub_next states (new_subscription st)"
  have "fresh_inv st states s"
    unfolding s_def by (rule fresh_fold_invariant)
  then have "sub_out (sub_next current s) =
     (if states = [] \<or> \<not> comparator st (last (sub_out s)) current
      then sub_out s @ [current] else sub_out s)"
    by (auto simp: fresh_inv_def sub_next_def sub_emit_def split: option.splits if_splits)
  then show ?thesis
    by (simp add: emissions_of_def s_def)
qed

lemma emissions_of_single: "emissions_of st [s] = [s]"
  using emissions_of_snoc [of st "[]" s] by (simp add: emissions_of_Nil)


text \<open>
  The comparison is \<^verbatim>\<open>===\<close>: a field that holds \<^verbatim>\<open>NaN\<close> differs from itself,
  and a field that holds a reference differs from any other reference.
\<close>

lemma nan_field_emits_again:
  "emissions_of (OnlySelectWhen [''a'']) [[(''a'', JNaN)], [(''a'', JNaN)]] = [[(''a'', JNaN)], [(''a'', JNaN)]]"
  by code_simp

lemma other_reference_emits_again:
  "emissions_of (OnlySelectWhen [''a'']) [[(''a'', JRef 1)], [(''a'', JRef 1)], [(''a'', JRef 2)]] =
     [[(''a'', JRef 1)], [(''a'', JRef 2)]]"
  by code_simp

section \<open>Subscriptions over a history\<close>

lemma connect_key_shape:
  "\<exists>ts bs. triggers (connect_key key p c) = triggers c @ ts \<and>
        bindings (connect_key key p c) = bindings c @ bs \<and>
        list_all (\<lambda>b. \<not> bclosed b \<and> bkey b = key) bs \<and>
        (bs = [] \<or> key \<in> set (object_keys (triggers (connect_key key p c)))) \<and>
        set (object_keys (triggers (connect_key key p c))) =
          set (object_keys (triggers c)) \<union> ({key} - set object_prototype_names)"
proof (cases "trigger_slot (triggers c) key")
  case Missing
  then have np: "key \<notin> set object_prototype_names"
    by (simp add: trigger_slot_def split: option.splits if_splits)
  from Missing have t: "triggers (connect_key key p c) = triggers c @ [(key, Suc 0)]"
    and b: "bindings (connect_key key p c) = bindings c @ [new_binding key p]"
    by (simp_all add: connect_key_def)
  have l: "list_all (\<lambda>b. \<not> bclosed b \<and> bkey b = key) [new_binding key p]"
    by (simp add: new_binding_def)
  from t have k: "set (object_keys (triggers (connect_key key p c))) =
      insert key (set (object_keys (triggers c)))"
    by (simp add: object_keys_def)
  from np have "{key} - set object_prototype_names = {key}" by (simp add: insert_Diff_if)
  with k have u: "set (object_keys (triggers (connect_key key p c))) =
      set (object_keys (triggers c)) \<union> ({key} - set object_prototype_names)"
    by simp
  from k have m: "[new_binding key p] = [] \<or> key \<in> set (object_keys (triggers (connect_key key p c)))"
    by simp
  have "triggers (connect_key key p c) = triggers c @ [(key, Suc 0)] \<and>
        bindings (connect_key key p c) = bindings c @ [new_binding key p] \<and>
        list_all (\<lambda>b. \<not> bclosed b \<and> bkey b = key) [new_binding key p] \<and>
        ([new_binding key p] = [] \<or> key \<in> set (object_keys (triggers (connect_key key p c)))) \<and>
        set (object_keys (triggers (connect_key key p c))) =
          set (object_keys (triggers c)) \<union> ({key} - set object_prototype_names)"
    by (rule conjI [OF t conjI [OF b conjI [OF l conjI [OF m u]]]])
  then show ?thesis by blast
next
  case (Registered n)
  then have "map_of (triggers c) key = Some n" by (simp add: trigger_slot_Registered)
  then have "key \<in> fst ` set (triggers c)"
    using map_of_eq_None_iff [of "triggers c" key] by simp
  then have k: "key \<in> set (object_keys (triggers c))" by (simp add: object_keys_def)
  then have "set (object_keys (triggers c)) \<union> ({key} - set object_prototype_names) =
      set (object_keys (triggers c))" by blast
  with Registered k have "triggers (connect_key key p c) = triggers c @ [] \<and>
        bindings (connect_key key p c) = bindings c @ [new_binding key p] \<and>
        list_all (\<lambda>b. \<not> bclosed b \<and> bkey b = key) [new_binding key p] \<and>
        ([new_binding key p] = [] \<or> key \<in> set (object_keys (triggers (connect_key key p c)))) \<and>
        set (object_keys (triggers (connect_key key p c))) =
          set (object_keys (triggers c)) \<union> ({key} - set object_prototype_names)"
    by (simp add: connect_key_def new_binding_def)
  then show ?thesis by blast
next
  case Inherited
  then have "key \<in> set object_prototype_names"
    by (simp add: trigger_slot_def split: option.splits if_splits)
  then have "set (object_keys (triggers c)) \<union> ({key} - set object_prototype_names) =
      set (object_keys (triggers c))" by blast
  with Inherited have "triggers (connect_key key p c) = triggers c @ [] \<and>
        bindings (connect_key key p c) = bindings c @ [] \<and>
        list_all (\<lambda>b. \<not> bclosed b \<and> bkey b = key) [] \<and>
        ([] = ([]::binding list) \<or> key \<in> set (object_keys (triggers (connect_key key p c)))) \<and>
        set (object_keys (triggers (connect_key key p c))) =
          set (object_keys (triggers c)) \<union> ({key} - set object_prototype_names)"
    by (simp add: connect_key_def)
  then show ?thesis by blast
qed

lemma connect_fold_shape:
  "set ks \<subseteq> set (object_keys object) \<Longrightarrow>
   \<exists>ts bs. triggers (connect_fold object ks c) = triggers c @ ts \<and>
        bindings (connect_fold object ks c) = bindings c @ bs \<and>
        list_all (\<lambda>b. \<not> bclosed b \<and> bkey b \<in> set (object_keys (triggers (connect_fold object ks c)))) bs \<and>
        set (object_keys (triggers (connect_fold object ks c))) =
          set (object_keys (triggers c)) \<union> (set ks - set object_prototype_names)"
proof (induction ks arbitrary: c)
  case Nil
  then show ?case by (simp add: connect_fold_def)
next
  case (Cons k ks)
  then have "k \<in> set (object_keys object)" by simp
  then have "map_of object k \<noteq> None"
    by (simp add: object_keys_def map_of_eq_None_iff)
  then obtain p where p: "map_of object k = Some p" by blast
  then have unf: "connect_fold object (k # ks) c = connect_fold object ks (connect_key k p c)"
    by (simp add: connect_fold_def)
  from connect_key_shape [of k p c] obtain ts bs where
    1: "triggers (connect_key k p c) = triggers c @ ts"
    and 2: "bindings (connect_key k p c) = bindings c @ bs"
    and a2: "list_all (\<lambda>b. \<not> bclosed b \<and> bkey b = k) bs"
    and b2: "bs = [] \<or> k \<in> set (object_keys (triggers (connect_key k p c)))"
    and 3: "set (object_keys (triggers (connect_key k p c))) =
            set (object_keys (triggers c)) \<union> ({k} - set object_prototype_names)"
    by blast
  from Cons.prems have "set ks \<subseteq> set (object_keys object)" by simp
  from Cons.IH [OF this, of "connect_key k p c"] obtain ts' bs' where
    4: "triggers (connect_fold object ks (connect_key k p c)) = triggers (connect_key k p c) @ ts'"
    and 5: "bindings (connect_fold object ks (connect_key k p c)) = bindings (connect_key k p c) @ bs'"
    and 6: "list_all (\<lambda>b. \<not> bclosed b \<and>
              bkey b \<in> set (object_keys (triggers (connect_fold object ks (connect_key k p c))))) bs'"
    and 7: "set (object_keys (triggers (connect_fold object ks (connect_key k p c)))) =
            set (object_keys (triggers (connect_key k p c))) \<union> (set ks - set object_prototype_names)"
    by blast
  have "triggers (connect_fold object (k # ks) c) = triggers c @ (ts @ ts')"
    using unf 1 4 by simp
  moreover have "bindings (connect_fold object (k # ks) c) = bindings c @ (bs @ bs')"
    using unf 2 5 by simp
  moreover have "list_all (\<lambda>b. \<not> bclosed b \<and>
       bkey b \<in> set (object_keys (triggers (connect_fold object (k # ks) c)))) (bs @ bs')"
  proof -
    have "list_all (\<lambda>b. \<not> bclosed b \<and>
       bkey b \<in> set (object_keys (triggers (connect_fold object (k # ks) c)))) bs"
    proof (cases "bs = []")
      case True
      then show ?thesis by simp
    next
      case False
      with b2 have "k \<in> set (object_keys (triggers (connect_key k p c)))" by simp
      with 7 unf have "k \<in> set (object_keys (triggers (connect_fold object (k # ks) c)))" by simp
      with a2 show ?thesis by (simp add: list_all_iff)
    qed
    with 6 unf show ?thesis by simp
  qed
  moreover have "set (object_keys (triggers (connect_fold object (k # ks) c))) =
      set (object_keys (triggers c)) \<union> (set (k # ks) - set object_prototype_names)"
    using unf 3 7 by auto
  ultimately show ?case by blast
qed

lemma connect_shape:
  "\<exists>ts bs. triggers (connect object c) = triggers c @ ts \<and>
        bindings (connect object c) = bindings c @ bs \<and>
        list_all (\<lambda>b. \<not> bclosed b \<and> bkey b \<in> set (object_keys (triggers (connect object c)))) bs \<and>
        set (object_keys (triggers (connect object c))) =
          set (object_keys (triggers c)) \<union> (set (object_keys object) - set object_prototype_names)"
  using connect_fold_shape [of "object_keys object" object c]
  by (simp add: connect_fold_def connect_def)

lemma bkey_after_emit: "bkey (after_emit emits b) = bkey b"
  by (simp add: after_emit_def binding_emit_def split: option.splits)

lemma after_emit_closed:
  "bclosed b \<Longrightarrow> after_emit (on_produce p v) b = b"
  "bclosed b \<Longrightarrow> after_emit (on_trigger key) b = b"
  by (simp_all add: after_emit_def on_produce_def on_trigger_def)

lemma after_input_closed: "iclosed i \<Longrightarrow> after_input src object i = i"
  by (simp add: after_input_def input_open_def)

lemma bindings_kept_refl: "bindings_kept bs bs"
  by (simp add: bindings_kept_def)

lemma bindings_kept_append: "bindings_kept bs (bs @ new)"
  by (simp add: bindings_kept_def nth_append)

lemma bindings_kept_map:
  "(\<And>b. bclosed b \<Longrightarrow> g b = b) \<Longrightarrow> (\<And>b. bkey (g b) = bkey b) \<Longrightarrow> bindings_kept bs (map g bs)"
  by (simp add: bindings_kept_def)

lemma bindings_kept_update:
  "\<not> bclosed (bs ! i) \<Longrightarrow> bkey b' = bkey (bs ! i) \<Longrightarrow> bindings_kept bs (bs[i := b'])"
proof -
  assume a: "\<not> bclosed (bs ! i)" "bkey b' = bkey (bs ! i)"
  have "(bclosed (bs ! j) \<longrightarrow> bs[i := b'] ! j = bs ! j) \<and> bkey (bs[i := b'] ! j) = bkey (bs ! j)"
    if "j < length bs" for j
  proof (cases "j = i")
    case True
    with a that show ?thesis by simp
  next
    case False
    then show ?thesis by simp
  qed
  then show ?thesis by (simp add: bindings_kept_def)
qed

lemma step_bindings: "bindings_kept (bindings c) (bindings (step e c))"
proof (cases e)
  case (Initialize s inp)
  then show ?thesis
    by (simp add: initialize_def Let_def state_next_def bindings_kept_refl split: option.splits)
next
  case (Patch p)
  then show ?thesis
    by (simp add: patch_def state_next_def bindings_kept_refl split: option.splits)
next
  case (Connect object)
  from connect_shape [of object c] obtain bs where "bindings (connect object c) = bindings c @ bs"
    by blast
  with Connect show ?thesis by (simp add: bindings_kept_append)
next
  case (Trigger key)
  have "bindings_kept (bindings c) (map (after_emit (on_trigger key)) (bindings c))"
    by (rule bindings_kept_map) (simp_all add: after_emit_closed bkey_after_emit)
  with Trigger show ?thesis
    by (simp add: trigger_eq bindings_kept_refl split: slot.splits)
next
  case (Subscribe st)
  then show ?thesis by (simp add: subscribe_def bindings_kept_refl)
next
  case (Produce p v)
  have "bindings_kept (bindings c) (map (after_emit (on_produce p v)) (bindings c))"
    by (rule bindings_kept_map) (simp_all add: after_emit_closed bkey_after_emit)
  with Produce show ?thesis by (simp add: produce_eq)
next
  case (ProduceInner i v)
  have "\<not> bclosed (bindings c ! i) \<Longrightarrow>
    bindings_kept (bindings c) ((bindings c)[i := (bindings c ! i)\<lparr>bout := bout (bindings c ! i) @ [v]\<rparr>])"
    by (rule bindings_kept_update) simp_all
  with ProduceInner show ?thesis
    by (simp add: produce_inner_def bindings_kept_refl)
next
  case (InputEmit src object)
  then show ?thesis by (simp add: input_emit_eq fold_callback_patch_frame bindings_kept_refl)
next
  case Destroy
  have "bindings_kept (bindings c) (map (\<lambda>b. b\<lparr>bclosed := True\<rparr>) (bindings c))"
    by (rule bindings_kept_map) simp_all
  with Destroy show ?thesis by (simp add: ngOnDestroy_def bindings_kept_refl)
qed

lemma step_inputs:
  "\<exists>f new. inputs (step e c) = map f (inputs c) @ new \<and> (\<forall>i. iclosed i \<longrightarrow> f i = i)"
proof -
  have same: "\<exists>f new. inputs c @ extra = map f (inputs c) @ new \<and> (\<forall>i. iclosed i \<longrightarrow> f i = i)" for extra
  proof -
    have "inputs c @ extra = map (\<lambda>i. i) (inputs c) @ extra \<and> (\<forall>i. iclosed i \<longrightarrow> (\<lambda>i. i) i = i)"
      by simp
    then show ?thesis by blast
  qed
  have mapped: "\<exists>f new. map g (inputs c) = map f (inputs c) @ new \<and> (\<forall>i. iclosed i \<longrightarrow> f i = i)"
    if "\<forall>i. iclosed i \<longrightarrow> g i = i" for g
  proof -
    from that have "map g (inputs c) = map g (inputs c) @ [] \<and> (\<forall>i. iclosed i \<longrightarrow> g i = i)"
      by simp
    then show ?thesis by blast
  qed
  show ?thesis
  proof (cases e)
    case (Initialize s inp)
    with same [of "[]"] same show ?thesis
      by (simp add: initialize_def Let_def state_next_def split: option.splits)
  next
    case (Patch p)
    with same [of "[]"] show ?thesis
      by (simp add: patch_def state_next_def split: option.splits)
  next
    case (Connect object)
    with same [of "[]"] show ?thesis by (simp add: connect_frame)
  next
    case (Trigger key)
    with same [of "[]"] show ?thesis
      by (simp add: trigger_eq fold_callback_patch_frame split: slot.splits)
  next
    case (Subscribe st)
    with same [of "[]"] show ?thesis by (simp add: subscribe_def)
  next
    case (Produce p v)
    with same [of "[]"] show ?thesis by (simp add: produce_eq fold_callback_patch_frame)
  next
    case (ProduceInner i v)
    with same [of "[]"] show ?thesis by (simp add: produce_inner_def callback_patch_frame)
  next
    case (InputEmit src object)
    from mapped [of "after_input src object"] InputEmit show ?thesis
      by (simp add: input_emit_eq after_input_closed)
  next
    case Destroy
    from mapped [of "\<lambda>i. i\<lparr>iclosed := True\<rparr>"] same [of "[]"] Destroy show ?thesis
      by (simp add: ngOnDestroy_def)
  qed
qed

lemma step_closed_binding:
  assumes "i < length (bindings c)" "bclosed (bindings c ! i)"
  shows "i < length (bindings (step e c)) \<and> bindings (step e c) ! i = bindings c ! i"
  using step_bindings [of c e] assms by (simp add: bindings_kept_def)

lemma step_closed_input:
  assumes "i < length (inputs c)" "iclosed (inputs c ! i)"
  shows "i < length (inputs (step e c)) \<and> inputs (step e c) ! i = inputs c ! i"
proof -
  from step_inputs [of e c] obtain f new where
    "inputs (step e c) = map f (inputs c) @ new" "\<forall>i. iclosed i \<longrightarrow> f i = i" by blast
  with assms show ?thesis by (simp add: nth_append)
qed

lemma run_closed_binding:
  "i < length (bindings c) \<Longrightarrow> bclosed (bindings c ! i) \<Longrightarrow>
   i < length (bindings (run es c)) \<and> bindings (run es c) ! i = bindings c ! i"
proof (induction es arbitrary: c)
  case Nil
  then show ?case by (simp add: run_def)
next
  case (Cons e es)
  from step_closed_binding [OF Cons.prems, of e]
  have 1: "i < length (bindings (step e c))" and 2: "bindings (step e c) ! i = bindings c ! i" by simp_all
  from 2 Cons.prems have 3: "bclosed (bindings (step e c) ! i)" by simp
  from Cons.IH [OF 1 3] 2 show ?case by (simp add: run_def)
qed

lemma run_closed_input:
  "i < length (inputs c) \<Longrightarrow> iclosed (inputs c ! i) \<Longrightarrow>
   i < length (inputs (run es c)) \<and> inputs (run es c) ! i = inputs c ! i"
proof (induction es arbitrary: c)
  case Nil
  then show ?case by (simp add: run_def)
next
  case (Cons e es)
  from step_closed_input [OF Cons.prems, of e]
  have 1: "i < length (inputs (step e c))" and 2: "inputs (step e c) ! i = inputs c ! i" by simp_all
  from 2 Cons.prems have 3: "iclosed (inputs (step e c) ! i)" by simp
  from Cons.IH [OF 1 3] 2 show ?case by (simp add: run_def)
qed

lemma take_prefix_eq:
  assumes "\<And>i. i < length xs \<Longrightarrow> i < length ys \<and> ys ! i = xs ! i"
  shows "take (length xs) ys = xs"
proof -
  have len: "length xs \<le> length ys"
  proof (cases "length xs")
    case 0
    then show ?thesis by simp
  next
    case (Suc n)
    with assms [of n] show ?thesis by simp
  qed
  show ?thesis
  proof (rule nth_equalityI)
    show "length (take (length xs) ys) = length xs" using len by simp
  next
    fix i assume "i < length (take (length xs) ys)"
    with assms [of i] show "take (length xs) ys ! i = xs ! i" by simp
  qed
qed

lemma step_pushed_prefix: "\<exists>vs. pushed (step e c) = pushed c @ vs"
proof (cases "e = Destroy")
  case True
  then show ?thesis by (simp add: ngOnDestroy_def)
next
  case False
  from step_pushes [OF False, of c] show ?thesis by blast
qed

lemma step_open_sub:
  assumes "i < length (subs c)" "\<not> sub_closed (subs (step e c) ! i)"
  shows "\<exists>vs. pushed (step e c) = pushed c @ vs \<and> i < length (subs (step e c)) \<and>
           subs (step e c) ! i = fold sub_next vs (subs c ! i)"
proof (cases "e = Destroy")
  case True
  show ?thesis
  proof (cases "destroyed c")
    case d: True
    with True assms have "pushed (step e c) = pushed c @ [] \<and> i < length (subs (step e c)) \<and>
           subs (step e c) ! i = fold sub_next [] (subs c ! i)"
      by (simp add: ngOnDestroy_def)
    then show ?thesis by blast
  next
    case False
    with True assms show ?thesis by (simp add: ngOnDestroy_def)
  qed
next
  case False
  from step_pushes [OF False, of c] obtain vs new where
    "pushed (step e c) = pushed c @ vs" "subs (step e c) = map (fold sub_next vs) (subs c) @ new"
    by blast
  with assms(1) have "pushed (step e c) = pushed c @ vs \<and> i < length (subs (step e c)) \<and>
           subs (step e c) ! i = fold sub_next vs (subs c ! i)"
    by (simp add: nth_append)
  then show ?thesis by blast
qed

lemma run_open_sub:
  "i < length (subs c) \<Longrightarrow> \<not> sub_closed (subs (run es c) ! i) \<Longrightarrow>
   \<exists>vs. pushed (run es c) = pushed c @ vs \<and> i < length (subs (run es c)) \<and>
        subs (run es c) ! i = fold sub_next vs (subs c ! i)"
proof (induction es arbitrary: c)
  case Nil
  then have "pushed (run [] c) = pushed c @ [] \<and> i < length (subs (run [] c)) \<and>
        subs (run [] c) ! i = fold sub_next [] (subs c ! i)"
    by (simp add: run_def)
  then show ?case by blast
next
  case (Cons e es)
  have unf: "run (e # es) c = run es (step e c)" by (simp add: run_def)
  have len: "i < length (subs (step e c))"
  proof (cases "e = Destroy")
    case True
    with Cons.prems(1) show ?thesis by (simp add: ngOnDestroy_def)
  next
    case False
    from step_pushes [OF False, of c] Cons.prems(1) show ?thesis by auto
  qed
  have "\<not> sub_closed (subs (step e c) ! i)"
  proof
    assume "sub_closed (subs (step e c) ! i)"
    from run_closed_sub [OF len this, of es] this Cons.prems(2) unf show False by simp
  qed
  from step_open_sub [OF Cons.prems(1) this] obtain vs where
    1: "pushed (step e c) = pushed c @ vs" "subs (step e c) ! i = fold sub_next vs (subs c ! i)"
    by blast
  from Cons.prems(2) unf have "\<not> sub_closed (subs (run es (step e c)) ! i)" by simp
  from Cons.IH [OF len this] obtain ws where
    2: "pushed (run es (step e c)) = pushed (step e c) @ ws" "i < length (subs (run es (step e c)))"
       "subs (run es (step e c)) ! i = fold sub_next ws (subs (step e c) ! i)"
    by blast
  from 1 2 unf have "pushed (run (e # es) c) = pushed c @ (vs @ ws) \<and> i < length (subs (run (e # es) c)) \<and>
        subs (run (e # es) c) ! i = fold sub_next (vs @ ws) (subs c ! i)"
    by simp
  then show ?case by blast
qed

lemma subscription_emissions:
  assumes "\<not> sub_closed (subs (run es (subscribe st c)) ! length (subs c))"
  shows "sub_out (subs (run es (subscribe st c)) ! length (subs c)) =
           emissions_of st (current_states c @ drop (length (pushed c)) (pushed (run es (subscribe st c))))"
proof -
  let ?c1 = "subscribe st c"
  have i: "length (subs c) < length (subs ?c1)" by (simp add: subscribe_def)
  have s: "subs ?c1 ! length (subs c) = fold sub_next (current_states c) (new_subscription st)"
    by (simp add: subscribe_def current_states_def split: option.splits)
  have p: "pushed ?c1 = pushed c" by (simp add: subscribe_def)
  from run_open_sub [OF i assms] obtain vs where
    "pushed (run es ?c1) = pushed ?c1 @ vs"
    "subs (run es ?c1) ! length (subs c) = fold sub_next vs (subs ?c1 ! length (subs c))"
    by blast
  with s p show ?thesis by (simp add: emissions_of_def)
qed



text \<open>
  C10. A fresh subscription to \<^verbatim>\<open>onlySelectWhen([])\<close> emits the first state that
  arrives and no other, whatever states follow. In the container, a subscription to
  it that is still open has emitted the state the cell held when it was made, or
  else the first state pushed since, and nothing more.
\<close>

theorem onlySelectWhen_no_keys_emits_once:
  "emissions_of (OnlySelectWhen []) (first # states) = [first] \<and>
   emissions_of (OnlySelectWhen []) states = take 1 states \<and>
   (\<not> sub_closed (subs (run es (subscribe (OnlySelectWhen []) c)) ! length (subs c)) \<longrightarrow>
      sub_out (subs (run es (subscribe (OnlySelectWhen []) c)) ! length (subs c)) =
        take 1 (current_states c @ drop (length (pushed c)) (pushed (run es (subscribe (OnlySelectWhen []) c)))))"
proof -
  have one: "emissions_of (OnlySelectWhen []) (x # xs) = [x]" for x xs
  proof (induction xs rule: rev_induct)
    case Nil
    then show ?case by (simp add: emissions_of_single)
  next
    case (snoc y ys)
    then show ?case
      using emissions_of_snoc [of "OnlySelectWhen []" "x # ys" y] by simp
  qed
  have any: "emissions_of (OnlySelectWhen []) xs = take 1 xs" for xs
    by (cases xs) (simp_all add: one emissions_of_Nil)
  from one any subscription_emissions [of es "OnlySelectWhen []" c] show ?thesis
    by simp
qed

theorem onlySelectWhen_no_keys_emits_once_witness:
  "\<not> sub_closed (subs (run [Patch [(''a'', JNum 1)], Patch [(''b'', JNum 2)]]
        (subscribe (OnlySelectWhen []) (initialize [(''a'', JNum 0), (''b'', JNum 0)] None new_container)))
      ! length (subs (initialize [(''a'', JNum 0), (''b'', JNum 0)] None new_container))) \<and>
   (sub_out (subs (run [Patch [(''a'', JNum 1)], Patch [(''b'', JNum 2)]]
        (subscribe (OnlySelectWhen []) (initialize [(''a'', JNum 0), (''b'', JNum 0)] None new_container)))
      ! length (subs (initialize [(''a'', JNum 0), (''b'', JNum 0)] None new_container))) =
    take 1 (current_states (initialize [(''a'', JNum 0), (''b'', JNum 0)] None new_container) @
       drop (length (pushed (initialize [(''a'', JNum 0), (''b'', JNum 0)] None new_container)))
         (pushed (run [Patch [(''a'', JNum 1)], Patch [(''b'', JNum 2)]]
            (subscribe (OnlySelectWhen [])
               (initialize [(''a'', JNum 0), (''b'', JNum 0)] None new_container)))))) \<and>
   map sub_out (subs (run [Patch [(''a'', JNum 1)], Patch [(''b'', JNum 2)]]
        (subscribe (OnlySelectWhen []) (initialize [(''a'', JNum 0), (''b'', JNum 0)] None new_container)))) =
     [[[(''a'', JNum 0), (''b'', JNum 0)]]]"
proof -
  let ?c = "initialize [(''a'', JNum 0), (''b'', JNum 0)] None new_container"
  let ?es = "[Patch [(''a'', JNum 1)], Patch [(''b'', JNum 2)]]"
  have h: "\<not> sub_closed (subs (run ?es (subscribe (OnlySelectWhen []) ?c)) ! length (subs ?c))"
    by code_simp
  have t: "\<not> sub_closed (subs (run ?es (subscribe (OnlySelectWhen []) ?c)) ! length (subs ?c)) \<longrightarrow>
      sub_out (subs (run ?es (subscribe (OnlySelectWhen []) ?c)) ! length (subs ?c)) =
        take 1 (current_states ?c @ drop (length (pushed ?c)) (pushed (run ?es (subscribe (OnlySelectWhen []) ?c))))"
    using onlySelectWhen_no_keys_emits_once [of undefined "[]" ?es ?c]
    by (elim conjE)
  have e: "map sub_out (subs (run ?es (subscribe (OnlySelectWhen []) ?c))) = [[[(''a'', JNum 0), (''b'', JNum 0)]]]"
    by code_simp
  from h t [THEN mp, OF h] e show ?thesis by (intro conjI)
qed

text \<open>
  C6. \<^verbatim>\<open>state$\<close> is to deliver what \<^verbatim>\<open>onlySelectWhen\<close> of all the record's
  field names delivers, the same states in the same order. The code does not where
  a state has lost a key. The record type has the fields \<^verbatim>\<open>a\<close> and \<^verbatim>\<open>b\<close>, and
  \<^verbatim>\<open>b\<close> is optional. After \<^verbatim>\<open>initialize({a: 1, b: 2})\<close> a consumer subscribes to
  \<^verbatim>\<open>state$\<close> and another to \<^verbatim>\<open>onlySelectWhen(['a', 'b'])\<close>; then
  \<^verbatim>\<open>initialize({a: 1})\<close> seeds the state again. The comparator of \<^verbatim>\<open>state$\<close>
  goes through \<^verbatim>\<open>Object.keys(current)\<close> only, finds \<^verbatim>\<open>a\<close> unchanged and never
  looks at \<^verbatim>\<open>b\<close>: \<^verbatim>\<open>state$\<close> stays silent, and its subscriber is left with
  \<^verbatim>\<open>{a: 1, b: 2}\<close> while \<^verbatim>\<open>snapshot\<close> returns \<^verbatim>\<open>{a: 1}\<close>.
  \<^verbatim>\<open>onlySelectWhen(['a', 'b'])\<close> sees \<^verbatim>\<open>b\<close> change to \<^verbatim>\<open>undefined\<close> and emits.
\<close>

theorem state_stream_differs_from_select_all:
  "map sub_out (subs (run [Initialize [(''a'', JNum 1), (''b'', JNum 2)] None, Subscribe StateStream,
       Subscribe (OnlySelectWhen [''a'', ''b'']), Initialize [(''a'', JNum 1)] None] new_container)) =
     [[[(''a'', JNum 1), (''b'', JNum 2)]],
      [[(''a'', JNum 1), (''b'', JNum 2)], [(''a'', JNum 1)]]] \<and>
   snapshot (run [Initialize [(''a'', JNum 1), (''b'', JNum 2)] None, Subscribe StateStream,
       Subscribe (OnlySelectWhen [''a'', ''b'']), Initialize [(''a'', JNum 1)] None] new_container) =
     Inr [(''a'', JNum 1)] \<and>
   emissions_of StateStream [[(''a'', JNum 1), (''b'', JNum 2)], [(''a'', JNum 1)]] \<noteq>
   emissions_of (OnlySelectWhen [''a'', ''b'']) [[(''a'', JNum 1), (''b'', JNum 2)], [(''a'', JNum 1)]]"
  by code_simp

lemma emissions_of_subset: "set (emissions_of st states) \<subseteq> set states"
proof (induction states rule: rev_induct)
  case Nil
  then show ?case by (simp add: emissions_of_Nil)
next
  case (snoc x xs)
  then show ?case by (auto simp: emissions_of_snoc)
qed

lemma get_field_absent: "key \<notin> set (object_keys object) \<Longrightarrow> get_field object key = JUndefined"
proof -
  assume "key \<notin> set (object_keys object)"
  then have "map_of object key = None"
    by (simp add: object_keys_def map_of_eq_None_iff)
  then show ?thesis by (simp add: get_field_def)
qed

lemma comparator_state_eq_select_grown:
  assumes "set (object_keys previous) \<subseteq> set (object_keys current)"
    and "set (object_keys current) \<subseteq> set all_keys"
  shows "comparator StateStream previous current = comparator (OnlySelectWhen all_keys) previous current"
proof -
  have "strict_eq (get_field current key) (get_field previous key)"
    if "key \<in> set all_keys" "key \<notin> set (object_keys current)" for key
  proof -
    from that(2) assms(1) have "key \<notin> set (object_keys previous)" by blast
    with that(2) show ?thesis by (simp add: get_field_absent strict_eq_def)
  qed
  with assms(2) show ?thesis by (auto simp: list_all_iff)
qed

lemma merge_fields_keeps_keys: "set (object_keys current) \<subseteq> set (object_keys (merge_fields current object))"
proof -
  have "dom (map_of current) \<subseteq> dom (map_of (merge_fields current object))"
    by (auto simp: map_of_merge_fields spec_merge_def split: option.splits)
  then show ?thesis by (simp add: dom_map_of_conv_image_fst object_keys_def)
qed

text \<open>
  The two streams part only there. \<^verbatim>\<open>patch\<close> never removes a key
  (\<open>merge_fields_keeps_keys\<close>); a state can lack a key an earlier one had only
  through another \<^verbatim>\<open>initialize\<close>. When the keys of every state that arrives are
  among the record's field names and no state lacks a key that an earlier one has,
  \<^verbatim>\<open>state$\<close> and \<^verbatim>\<open>onlySelectWhen\<close> of the record's field names emit the same
  states in the same order.
\<close>

lemma state_stream_agrees_while_keys_grow:
  assumes "list_all (\<lambda>s. set (object_keys s) \<subseteq> set all_keys) states"
    and "sorted_wrt (\<lambda>s t. set (object_keys s) \<subseteq> set (object_keys t)) states"
  shows "emissions_of StateStream states = emissions_of (OnlySelectWhen all_keys) states"
  using assms
proof (induction states rule: rev_induct)
  case Nil
  then show ?case by (simp add: emissions_of_Nil)
next
  case (snoc x xs)
  then have ih: "emissions_of StateStream xs = emissions_of (OnlySelectWhen all_keys) xs"
    and k: "set (object_keys x) \<subseteq> set all_keys"
    and m: "\<forall>p\<in>set xs. set (object_keys p) \<subseteq> set (object_keys x)"
    by (simp_all add: sorted_wrt_append)
  show ?case
  proof (cases "xs = []")
    case True
    then show ?thesis by (simp add: emissions_of_single)
  next
    case False
    then have "emissions_of (OnlySelectWhen all_keys) xs \<noteq> []"
      by (simp add: emissions_of_empty_iff)
    then have "last (emissions_of (OnlySelectWhen all_keys) xs) \<in> set xs"
      using emissions_of_subset [of "OnlySelectWhen all_keys" xs] last_in_set by blast
    with m have "set (object_keys (last (emissions_of (OnlySelectWhen all_keys) xs))) \<subseteq> set (object_keys x)"
      by blast
    from comparator_state_eq_select_grown [OF this k] show ?thesis
      by (simp add: emissions_of_snoc ih)
  qed
qed

lemma state_stream_agrees_while_keys_grow_example:
  "list_all (\<lambda>s. set (object_keys s) \<subseteq> set [''a'', ''b''])
     [[(''a'', JNum 1)], [(''a'', JNum 1), (''b'', JUndefined)], [(''a'', JNum 1), (''b'', JNum 3)],
      [(''a'', JNum 1), (''b'', JNum 3)]] \<and>
   sorted_wrt (\<lambda>s t. set (object_keys s) \<subseteq> set (object_keys t))
     [[(''a'', JNum 1)], [(''a'', JNum 1), (''b'', JUndefined)], [(''a'', JNum 1), (''b'', JNum 3)],
      [(''a'', JNum 1), (''b'', JNum 3)]] \<and>
   emissions_of StateStream
     [[(''a'', JNum 1)], [(''a'', JNum 1), (''b'', JUndefined)], [(''a'', JNum 1), (''b'', JNum 3)],
      [(''a'', JNum 1), (''b'', JNum 3)]] =
   emissions_of (OnlySelectWhen [''a'', ''b''])
     [[(''a'', JNum 1)], [(''a'', JNum 1), (''b'', JUndefined)], [(''a'', JNum 1), (''b'', JNum 3)],
      [(''a'', JNum 1), (''b'', JNum 3)]] \<and>
   emissions_of StateStream
     [[(''a'', JNum 1)], [(''a'', JNum 1), (''b'', JUndefined)], [(''a'', JNum 1), (''b'', JNum 3)],
      [(''a'', JNum 1), (''b'', JNum 3)]] =
     [[(''a'', JNum 1)], [(''a'', JNum 1), (''b'', JNum 3)]]"
proof -
  have h1: "list_all (\<lambda>s. set (object_keys s) \<subseteq> set [''a'', ''b''])
     [[(''a'', JNum 1)], [(''a'', JNum 1), (''b'', JUndefined)], [(''a'', JNum 1), (''b'', JNum 3)],
      [(''a'', JNum 1), (''b'', JNum 3)]]"
    by (simp add: object_keys_def)
  have h2: "sorted_wrt (\<lambda>s t. set (object_keys s) \<subseteq> set (object_keys t))
     [[(''a'', JNum 1)], [(''a'', JNum 1), (''b'', JUndefined)], [(''a'', JNum 1), (''b'', JNum 3)],
      [(''a'', JNum 1), (''b'', JNum 3)]]"
    by (simp add: object_keys_def)
  have e: "emissions_of StateStream
     [[(''a'', JNum 1)], [(''a'', JNum 1), (''b'', JUndefined)], [(''a'', JNum 1), (''b'', JNum 3)],
      [(''a'', JNum 1), (''b'', JNum 3)]] =
     [[(''a'', JNum 1)], [(''a'', JNum 1), (''b'', JNum 3)]]"
    by code_simp
  show ?thesis by (rule conjI [OF h1 conjI [OF h2 conjI [OF state_stream_agrees_while_keys_grow [OF h1 h2] e]]])
qed

section \<open>Disposal\<close>

text \<open>
  C5, as stated, fails for a subscriber that subscribes after disposal. After
  \<^verbatim>\<open>initialize({a: 0})\<close> and \<^verbatim>\<open>ngOnDestroy()\<close> a consumer subscribes to
  \<^verbatim>\<open>state$\<close>: it is handed the current state at once, and the state of a later
  \<^verbatim>\<open>patch({a: 1})\<close> as well. A producer connected after disposal still feeds the
  state.
\<close>

theorem late_subscriber_receives_after_disposal:
  "destroyed (run [Initialize [(''a'', JNum 0)] None, Destroy] new_container) \<and>
   map sub_out (subs (run [Initialize [(''a'', JNum 0)] None, Destroy, Subscribe StateStream] new_container)) =
     [[[(''a'', JNum 0)]]] \<and>
   map sub_out (subs (run [Initialize [(''a'', JNum 0)] None, Destroy, Subscribe StateStream,
       Patch [(''a'', JNum 1)]] new_container)) =
     [[[(''a'', JNum 0)], [(''a'', JNum 1)]]] \<and>
   map sub_out (subs (run [Initialize [(''a'', JNum 0)] None, Destroy, Subscribe (Select ''a''),
       Connect [(''a'', 0)], Produce 0 (JNum 5)] new_container)) =
     [[[(''a'', JNum 0)], [(''a'', JNum 5)]]]"
  by code_simp

text \<open>
  C5, amended. When the disposal operation fires the cancellation signal, every
  subscription made before (a consumer's to the state stream or a selection stream,
  a binding of \<^verbatim>\<open>connect\<close>, the subscription of \<^verbatim>\<open>initialize\<close> to its source)
  is completed and never emits again, whatever is called or produced afterwards: all
  it has ever emitted it had emitted before the disposal. Subscriptions made after
  the disposal are not covered.
\<close>

theorem nothing_subscribed_before_disposal_emits_after:
  assumes "\<not> destroyed c"
  shows "take (length (subs c)) (subs (run es (ngOnDestroy c))) = map (\<lambda>s. s\<lparr>sub_closed := True\<rparr>) (subs c) \<and>
         take (length (bindings c)) (bindings (run es (ngOnDestroy c))) = map (\<lambda>b. b\<lparr>bclosed := True\<rparr>) (bindings c) \<and>
         take (length (inputs c)) (inputs (run es (ngOnDestroy c))) = map (\<lambda>i. i\<lparr>iclosed := True\<rparr>) (inputs c) \<and>
         map sub_out (take (length (subs c)) (subs (run es (ngOnDestroy c)))) = map sub_out (subs c) \<and>
         map bout (take (length (bindings c)) (bindings (run es (ngOnDestroy c)))) = map bout (bindings c) \<and>
         map iout (take (length (inputs c)) (inputs (run es (ngOnDestroy c)))) = map iout (inputs c)"
proof -
  let ?d = "ngOnDestroy c"
  from assms have d: "subs ?d = map (\<lambda>s. s\<lparr>sub_closed := True\<rparr>) (subs c)"
    "bindings ?d = map (\<lambda>b. b\<lparr>bclosed := True\<rparr>) (bindings c)"
    "inputs ?d = map (\<lambda>i. i\<lparr>iclosed := True\<rparr>) (inputs c)"
    by (simp_all add: ngOnDestroy_def)
  have "take (length (subs ?d)) (subs (run es ?d)) = subs ?d"
  proof (rule take_prefix_eq)
    fix i assume "i < length (subs ?d)"
    moreover from this have "sub_closed (subs ?d ! i)" by (simp add: d)
    ultimately show "i < length (subs (run es ?d)) \<and> subs (run es ?d) ! i = subs ?d ! i"
      by (rule run_closed_sub)
  qed
  then have 1: "take (length (subs c)) (subs (run es ?d)) = map (\<lambda>s. s\<lparr>sub_closed := True\<rparr>) (subs c)"
    by (simp add: d)
  have "take (length (bindings ?d)) (bindings (run es ?d)) = bindings ?d"
  proof (rule take_prefix_eq)
    fix i assume "i < length (bindings ?d)"
    moreover from this have "bclosed (bindings ?d ! i)" by (simp add: d)
    ultimately show "i < length (bindings (run es ?d)) \<and> bindings (run es ?d) ! i = bindings ?d ! i"
      by (rule run_closed_binding)
  qed
  then have 2: "take (length (bindings c)) (bindings (run es ?d)) = map (\<lambda>b. b\<lparr>bclosed := True\<rparr>) (bindings c)"
    by (simp add: d)
  have "take (length (inputs ?d)) (inputs (run es ?d)) = inputs ?d"
  proof (rule take_prefix_eq)
    fix i assume "i < length (inputs ?d)"
    moreover from this have "iclosed (inputs ?d ! i)" by (simp add: d)
    ultimately show "i < length (inputs (run es ?d)) \<and> inputs (run es ?d) ! i = inputs ?d ! i"
      by (rule run_closed_input)
  qed
  then have 3: "take (length (inputs c)) (inputs (run es ?d)) = map (\<lambda>i. i\<lparr>iclosed := True\<rparr>) (inputs c)"
    by (simp add: d)
  from 1 2 3 show ?thesis by (simp add: comp_def)
qed

theorem nothing_subscribed_before_disposal_emits_after_witness:
  "\<not> destroyed (run [Initialize [(''a'', JNum 0)] (Some 3), Subscribe StateStream, Connect [(''a'', 0)],
        Produce 0 (JNum 1)] new_container) \<and>
   map sub_out (subs (run [Initialize [(''a'', JNum 0)] (Some 3), Subscribe StateStream, Connect [(''a'', 0)],
        Produce 0 (JNum 1)] new_container)) = [[[(''a'', JNum 0)], [(''a'', JNum 1)]]] \<and>
   map sub_out (subs (run [Patch [(''a'', JNum 2)], Produce 0 (JNum 3), ProduceInner 0 (JNum 5), Trigger ''a'',
       InputEmit 3 [(''a'', JNum 4)]]
      (ngOnDestroy (run [Initialize [(''a'', JNum 0)] (Some 3), Subscribe StateStream, Connect [(''a'', 0)],
        Produce 0 (JNum 1)] new_container)))) = [[[(''a'', JNum 0)], [(''a'', JNum 1)]]] \<and>
   snapshot (run [Patch [(''a'', JNum 2)], Produce 0 (JNum 3), ProduceInner 0 (JNum 5), Trigger ''a'',
       InputEmit 3 [(''a'', JNum 4)]]
      (ngOnDestroy (run [Initialize [(''a'', JNum 0)] (Some 3), Subscribe StateStream, Connect [(''a'', 0)],
        Produce 0 (JNum 1)] new_container))) = Inr [(''a'', JNum 2)]"
proof -
  let ?c = "run [Initialize [(''a'', JNum 0)] (Some 3), Subscribe StateStream, Connect [(''a'', 0)],
        Produce 0 (JNum 1)] new_container"
  let ?es = "[Patch [(''a'', JNum 2)], Produce 0 (JNum 3), ProduceInner 0 (JNum 5), Trigger ''a'',
       InputEmit 3 [(''a'', JNum 4)]]"
  have h: "\<not> destroyed ?c" by code_simp
  have l: "length (subs ?c) = 1" by code_simp
  have b: "map sub_out (subs ?c) = [[[(''a'', JNum 0)], [(''a'', JNum 1)]]]" by code_simp
  have n: "length (subs (run ?es (ngOnDestroy ?c))) = 1" by code_simp
  from nothing_subscribed_before_disposal_emits_after [OF h, of ?es]
  have "map sub_out (take (length (subs ?c)) (subs (run ?es (ngOnDestroy ?c)))) = map sub_out (subs ?c)"
    by (elim conjE)
  with l n b have a: "map sub_out (subs (run ?es (ngOnDestroy ?c))) = [[[(''a'', JNum 0)], [(''a'', JNum 1)]]]"
    by simp
  have s: "snapshot (run ?es (ngOnDestroy ?c)) = Inr [(''a'', JNum 2)]" by code_simp
  show ?thesis by (rule conjI [OF h conjI [OF b conjI [OF a s]]])
qed

section \<open>The trigger registry\<close>

lemma object_keys_update: "set (object_keys (AList.update k v al)) = insert k (set (object_keys al))"
  by (simp add: object_keys_def dom_update)

lemma registered_iff: "(key \<in> set (object_keys al)) = (map_of al key \<noteq> None)"
  by (simp add: object_keys_def map_of_eq_None_iff)

lemma step_registered:
  "(key \<in> set (object_keys (triggers (step e c)))) =
     (key \<in> set (object_keys (triggers c)) \<or> connects key e \<and> key \<notin> set object_prototype_names)"
proof (cases e)
  case (Initialize s inp)
  then show ?thesis by (simp add: initialize_def Let_def state_next_def split: option.splits)
next
  case (Patch p)
  then show ?thesis by (simp add: patch_def state_next_def split: option.splits)
next
  case (Connect object)
  with connect_shape [of object c] show ?thesis by auto
next
  case (Trigger k)
  show ?thesis
  proof (cases "trigger_slot (triggers c) k")
    case Missing
    with Trigger show ?thesis by (simp add: trigger_eq)
  next
    case Inherited
    with Trigger show ?thesis by (simp add: trigger_eq)
  next
    case (Registered n)
    then have "k \<in> set (object_keys (triggers c))"
      by (simp add: registered_iff trigger_slot_Registered)
    with Registered Trigger show ?thesis
      by (auto simp: trigger_eq fold_callback_patch_frame object_keys_update)
  qed
next
  case (Subscribe st)
  then show ?thesis by (simp add: subscribe_def)
next
  case (Produce p v)
  then show ?thesis by (simp add: produce_eq fold_callback_patch_frame)
next
  case (ProduceInner i v)
  then show ?thesis by (simp add: produce_inner_def callback_patch_frame)
next
  case (InputEmit src object)
  then show ?thesis by (simp add: input_emit_eq fold_callback_patch_frame)
next
  case Destroy
  then show ?thesis by (simp add: ngOnDestroy_def)
qed

lemma run_registered:
  "(key \<in> set (object_keys (triggers (run es c)))) =
     (key \<in> set (object_keys (triggers c)) \<or>
      list_ex (connects key) es \<and> key \<notin> set object_prototype_names)"
proof (induction es arbitrary: c)
  case Nil
  then show ?case by (simp add: run_def)
next
  case (Cons e es)
  have "run (e # es) c = run es (step e c)" by (simp add: run_def)
  then show ?case by (auto simp: Cons.IH step_registered)
qed

lemma trigger_fires:
  "map_of (triggers c) key = Some n \<Longrightarrow>
   \<exists>c'. trigger key c = Inr c' \<and> map_of (triggers c') key = Some (Suc n)"
proof -
  assume "map_of (triggers c) key = Some n"
  then have "trigger_slot (triggers c) key = Registered n" by (simp add: trigger_slot_Registered)
  then show ?thesis by (simp add: trigger_eq fold_callback_patch_frame update_conv')
qed

lemma registered_in_new_history:
  "(key \<in> set (object_keys (triggers (run es new_container)))) =
     (list_ex (connects key) es \<and> key \<notin> set object_prototype_names)"
proof -
  have "set (object_keys (triggers new_container)) = {}"
    by (simp add: new_container_def object_keys_def)
  then show ?thesis by (simp add: run_registered)
qed

text \<open>
  For every key that does not name a member of \<^verbatim>\<open>Object.prototype\<close>, over every
  history of a new container: \<^verbatim>\<open>trigger(key)\<close> throws \<open>NoTriggerRegistered\<close>
  exactly when no \<^verbatim>\<open>connect\<close> of the history had the key among the keys of its
  argument; it succeeds and fires the key's trigger (one more firing is counted)
  exactly when one had; the registry has an entry for the key exactly when one had;
  and an entry, once there, stays whatever follows.
\<close>

lemma trigger_of_other_names:
  assumes "key \<notin> set object_prototype_names"
  shows "(trigger key (run es new_container) = Inl NoTriggerRegistered) = (\<not> list_ex (connects key) es) \<and>
   (\<exists>c' n. trigger key (run es new_container) = Inr c' \<and>
      map_of (triggers (run es new_container)) key = Some n \<and>
      map_of (triggers c') key = Some (Suc n)) = list_ex (connects key) es \<and>
   (key \<in> set (object_keys (triggers (run es new_container)))) = list_ex (connects key) es \<and>
   (key \<in> set (object_keys (triggers c)) \<longrightarrow> key \<in> set (object_keys (triggers (run es' c))))"
proof -
  let ?c = "run es new_container"
  from assms have reg: "(key \<in> set (object_keys (triggers ?c))) = list_ex (connects key) es"
    by (simp add: registered_in_new_history)
  have 1: "(trigger key ?c = Inl NoTriggerRegistered) = (\<not> list_ex (connects key) es)"
  proof (cases "map_of (triggers ?c) key")
    case None
    with assms have "trigger_slot (triggers ?c) key = Missing" by (simp add: trigger_slot_def)
    with None reg show ?thesis by (simp add: trigger_eq registered_iff)
  next
    case (Some n)
    from trigger_fires [OF Some] Some reg show ?thesis by (auto simp: registered_iff)
  qed
  have 2: "(\<exists>c' n. trigger key ?c = Inr c' \<and> map_of (triggers ?c) key = Some n \<and>
      map_of (triggers c') key = Some (Suc n)) = list_ex (connects key) es"
  proof (cases "map_of (triggers ?c) key")
    case None
    with reg show ?thesis by (simp add: registered_iff)
  next
    case (Some n)
    from trigger_fires [OF Some] Some reg show ?thesis by (simp add: registered_iff)
  qed
  have 3: "key \<in> set (object_keys (triggers c)) \<longrightarrow> key \<in> set (object_keys (triggers (run es' c)))"
    by (simp add: run_registered)
  from 1 2 reg 3 show ?thesis by blast
qed

text \<open>
  A key that names a member of \<^verbatim>\<open>Object.prototype\<close> never gets an entry, whatever
  is connected, and \<^verbatim>\<open>trigger\<close> of it always throws a \<^verbatim>\<open>TypeError\<close>.
\<close>

lemma trigger_of_inherited_names:
  assumes "key \<in> set object_prototype_names"
  shows "trigger key (run es new_container) = Inl TypeError \<and>
         key \<notin> set (object_keys (triggers (run es new_container)))"
proof -
  from assms have n: "key \<notin> set (object_keys (triggers (run es new_container)))"
    by (simp add: registered_in_new_history)
  then have "map_of (triggers (run es new_container)) key = None"
    by (simp add: registered_iff)
  with assms have "trigger_slot (triggers (run es new_container)) key = Inherited"
    by (simp add: trigger_slot_def)
  with n show ?thesis by (simp add: trigger_eq)
qed

text \<open>
  C9. \<^verbatim>\<open>trigger(field)\<close> is to throw \<open>NoTriggerRegistered\<close> exactly for the fields
  never passed to \<^verbatim>\<open>connect\<close>, and a registry entry is to exist exactly for the
  fields passed to it. The code does so for every key but the names of the members
  of \<^verbatim>\<open>Object.prototype\<close>: on a new container \<^verbatim>\<open>trigger('toString')\<close> throws a
  \<^verbatim>\<open>TypeError\<close> and not \<open>NoTriggerRegistered\<close>; \<^verbatim>\<open>connect({toString: p})\<close> makes
  no entry and no binding, its subscription fails with a \<^verbatim>\<open>TypeError\<close> that is
  reported later, and \<^verbatim>\<open>trigger('toString')\<close> still throws a \<^verbatim>\<open>TypeError\<close>.
\<close>

theorem trigger_of_toString_throws_type_error:
  "trigger ''toString'' new_container = Inl TypeError \<and>
   trigger ''toString'' new_container \<noteq> Inl NoTriggerRegistered \<and>
   triggers (connect [(''toString'', 0)] new_container) = [] \<and>
   bindings (connect [(''toString'', 0)] new_container) = [] \<and>
   unhandled (connect [(''toString'', 0)] new_container) = [TypeError] \<and>
   trigger ''toString'' (connect [(''toString'', 0)] new_container) = Inl TypeError \<and>
   trigger ''constructor'' new_container = Inl TypeError \<and>
   trigger ''x'' new_container = Inl NoTriggerRegistered \<and>
   triggers (connect [(''x'', 0)] new_container) = [(''x'', 1)]"
  by code_simp

section \<open>Producer bindings\<close>

lemma callback_patch_triggers_update:
  "callback_patch p (c\<lparr>triggers := T\<rparr>) = (callback_patch p c)\<lparr>triggers := T\<rparr>"
  by (simp add: callback_patch_def patch_def state_next_def split: option.splits)

lemma fold_callback_patch_triggers_update:
  "fold callback_patch ps (c\<lparr>triggers := T\<rparr>) = (fold callback_patch ps c)\<lparr>triggers := T\<rparr>"
  by (induction ps arbitrary: c) (simp_all add: callback_patch_triggers_update)

lemma step_bindings_registered:
  assumes "bkey ` set (bindings c) \<subseteq> set (object_keys (triggers c))"
  shows "bkey ` set (bindings (step e c)) \<subseteq> set (object_keys (triggers (step e c)))"
proof
  fix k assume "k \<in> bkey ` set (bindings (step e c))"
  then obtain j where j: "j < length (bindings (step e c))" "k = bkey (bindings (step e c) ! j)"
    by (auto simp: in_set_conv_nth)
  have mono: "set (object_keys (triggers c)) \<subseteq> set (object_keys (triggers (step e c)))"
    using step_registered [of _ e c] by blast
  show "k \<in> set (object_keys (triggers (step e c)))"
  proof (cases "j < length (bindings c)")
    case True
    with step_bindings [of c e] j have "k = bkey (bindings c ! j)"
      by (simp add: bindings_kept_def)
    moreover from True have "bindings c ! j \<in> set (bindings c)" by simp
    ultimately have "k \<in> bkey ` set (bindings c)" by blast
    with assms mono show ?thesis by blast
  next
    case False
    show ?thesis
    proof (cases e)
      case (Connect object)
      from connect_shape [of object c] obtain bs where
        bs: "bindings (connect object c) = bindings c @ bs"
        "list_all (\<lambda>b. \<not> bclosed b \<and> bkey b \<in> set (object_keys (triggers (connect object c)))) bs"
        by blast
      from False j Connect bs(1) have "bindings (step e c) ! j \<in> set bs"
        by (simp add: nth_append)
      with bs(2) j have "k \<in> set (object_keys (triggers (connect object c)))"
        by (simp add: list_all_iff)
      with Connect show ?thesis by simp
    next
      case (Initialize s inp)
      with False j show ?thesis
        by (simp add: initialize_def Let_def state_next_def split: option.splits)
    next
      case (Patch p)
      with False j show ?thesis by (simp add: patch_def state_next_def split: option.splits)
    next
      case (Trigger key)
      with False j show ?thesis by (simp add: trigger_eq split: slot.splits)
    next
      case (Subscribe st)
      with False j show ?thesis by (simp add: subscribe_def)
    next
      case (Produce p v)
      with False j show ?thesis by (simp add: produce_eq)
    next
      case (ProduceInner i v)
      with False j show ?thesis by (simp add: produce_inner_def split: if_splits)
    next
      case (InputEmit src object)
      with False j show ?thesis by (simp add: input_emit_eq fold_callback_patch_frame)
    next
      case Destroy
      with False j show ?thesis by (simp add: ngOnDestroy_def split: if_splits)
    qed
  qed
qed

lemma run_bindings_registered:
  "bkey ` set (bindings c) \<subseteq> set (object_keys (triggers c)) \<Longrightarrow>
   bkey ` set (bindings (run es c)) \<subseteq> set (object_keys (triggers (run es c)))"
proof (induction es arbitrary: c)
  case Nil
  then show ?case by (simp add: run_def)
next
  case (Cons e es)
  from Cons.IH [OF step_bindings_registered [OF Cons.prems]] show ?case by (simp add: run_def)
qed

lemma get_field_update: "get_field (AList.update k v s) key = (if key = k then v else get_field s key)"
  by (simp add: get_field_def update_conv')

lemma merge_fields_single: "merge_fields s [(k, v)] = AList.update k v s"
  by (simp add: merge_fields_def object_keys_def get_field_def)

lemma fold_patch_same_value:
  "state_val c = Some s \<Longrightarrow> list_all (\<lambda>p. \<exists>k. p = [(k, v)]) ps \<Longrightarrow>
   [(key, v)] \<in> set ps \<or> get_field s key = v \<Longrightarrow>
   \<exists>s'. state_val (fold callback_patch ps c) = Some s' \<and> get_field s' key = v"
proof (induction ps arbitrary: c s)
  case Nil
  then show ?case by simp
next
  case (Cons p ps)
  from Cons.prems(2) obtain k where p: "p = [(k, v)]" by auto
  let ?s = "AList.update k v s"
  from Cons.prems(1) p have 1: "state_val (callback_patch p c) = Some ?s"
    by (simp add: callback_patch_def patch_def state_val_state_next merge_fields_single)
  from Cons.prems(2) have 2: "list_all (\<lambda>p. \<exists>k. p = [(k, v)]) ps" by simp
  from Cons.prems(3) p have 3: "[(key, v)] \<in> set ps \<or> get_field ?s key = v"
    by (auto simp: get_field_update)
  from Cons.IH [OF 1 2 3] show ?case by simp
qed

lemma handed_produce_shape: "list_all (\<lambda>p. \<exists>k. p = [(k, v)]) (handed (on_produce producer v) bs)"
  by (induction bs) (simp_all add: handed_def on_produce_def)

lemma handed_member:
  "b \<in> set bs \<Longrightarrow> emits b = Some v \<Longrightarrow> [(bkey b, v)] \<in> set (handed emits bs)"
  by (force simp: handed_def)

lemma reachable_binding_registered:
  assumes "i < length (bindings (run es new_container))"
  shows "\<exists>n. map_of (triggers (run es new_container)) (bkey (bindings (run es new_container) ! i)) = Some n"
proof -
  have "bkey ` set (bindings new_container) \<subseteq> set (object_keys (triggers new_container))"
    by (simp add: new_container_def)
  from run_bindings_registered [OF this, of es]
  have "bkey ` set (bindings (run es new_container)) \<subseteq> set (object_keys (triggers (run es new_container)))" .
  moreover from assms have "bindings (run es new_container) ! i \<in> set (bindings (run es new_container))"
    by simp
  ultimately have "bkey (bindings (run es new_container) ! i) \<in> set (object_keys (triggers (run es new_container)))"
    by blast
  then show ?thesis by (auto simp: registered_iff)
qed

text \<open>
  \<^verbatim>\<open>combineLatest\<close> holds a producer value for a binding exactly when a value of
  the producer has reached the binding, and until then \<^verbatim>\<open>switchMap\<close> has opened no
  inner subscription. Where no value arrives on an inner subscription (a producer
  that multicasts, an RxJS \<^verbatim>\<open>Subject\<close>), the value \<^verbatim>\<open>combineLatest\<close> holds is
  the producer's latest known value.
\<close>

lemma newly_handed_after_emit: "newly_handed bs (map (after_emit emits) bs) = handed emits bs"
  by (induction bs) (simp_all add: newly_handed_def handed_def after_emit_def binding_emit_def split: option.splits)

lemma produced_snoc: "produced i (es @ [e]) c = produced i es c @ arrives i e (run es c)"
  by (induction es arbitrary: c) (simp_all add: run_def)

lemma arrives_beyond: "length (bindings c) \<le> i \<Longrightarrow> arrives i e c = []"
  by (cases e) simp_all

lemma run_bindings_length: "length (bindings c) \<le> length (bindings (run es c))"
proof (induction es arbitrary: c)
  case Nil
  show ?case by (simp add: run_def)
next
  case (Cons e es)
  from step_bindings [of c e] have "length (bindings c) \<le> length (bindings (step e c))"
    by (simp add: bindings_kept_def)
  with Cons [of "step e c"] show ?case by (simp add: run_def)
qed

lemma produced_beyond: "length (bindings (run es c)) \<le> i \<Longrightarrow> produced i es c = []"
proof (induction es arbitrary: c)
  case Nil
  show ?case by simp
next
  case (Cons e es)
  from Cons.prems have 1: "length (bindings (run es (step e c))) \<le> i" by (simp add: run_def)
  from run_bindings_length [of "step e c" es] 1 have "length (bindings (step e c)) \<le> i" by simp
  with step_bindings [of c e] have "length (bindings c) \<le> i" by (simp add: bindings_kept_def)
  with Cons.IH [OF 1] show ?case by (simp add: arrives_beyond)
qed

lemma connect_key_fresh:
  "\<exists>bs. bindings (connect_key key p c) = bindings c @ bs \<and>
        list_all (\<lambda>b. blatest b = None \<and> binner b = 0) bs"
proof (cases "trigger_slot (triggers c) key")
  case Missing
  then have "bindings (connect_key key p c) = bindings c @ [new_binding key p] \<and>
        list_all (\<lambda>b. blatest b = None \<and> binner b = 0) [new_binding key p]"
    by (simp add: connect_key_def new_binding_def)
  then show ?thesis by (rule exI)
next
  case (Registered n)
  then have "bindings (connect_key key p c) = bindings c @ [new_binding key p] \<and>
        list_all (\<lambda>b. blatest b = None \<and> binner b = 0) [new_binding key p]"
    by (simp add: connect_key_def new_binding_def)
  then show ?thesis by (rule exI)
next
  case Inherited
  then have "bindings (connect_key key p c) = bindings c @ [] \<and>
        list_all (\<lambda>b. blatest b = None \<and> binner b = 0) []"
    by (simp add: connect_key_def)
  then show ?thesis by (rule exI)
qed

lemma connect_fold_fresh:
  "\<exists>bs. bindings (connect_fold object ks c) = bindings c @ bs \<and>
        list_all (\<lambda>b. blatest b = None \<and> binner b = 0) bs"
proof (induction ks arbitrary: c)
  case Nil
  have "bindings (connect_fold object [] c) = bindings c @ [] \<and>
        list_all (\<lambda>b. blatest b = None \<and> binner b = 0) []"
    by (simp add: connect_fold_def)
  then show ?case by (rule exI)
next
  case (Cons k ks)
  obtain c1 where c1: "c1 = (case map_of object k of None \<Rightarrow> c | Some p \<Rightarrow> connect_key k p c)"
    by simp
  have "\<exists>bs. bindings c1 = bindings c @ bs \<and> list_all (\<lambda>b. blatest b = None \<and> binner b = 0) bs"
  proof (cases "map_of object k")
    case None
    with c1 have "bindings c1 = bindings c @ [] \<and> list_all (\<lambda>b. blatest b = None \<and> binner b = 0) []"
      by simp
    then show ?thesis by (rule exI)
  next
    case (Some p)
    with c1 connect_key_fresh [of k p c] show ?thesis by simp
  qed
  then obtain bs where 1: "bindings c1 = bindings c @ bs"
    and 2: "list_all (\<lambda>b. blatest b = None \<and> binner b = 0) bs" by blast
  from Cons [of c1] obtain bs' where 3: "bindings (connect_fold object ks c1) = bindings c1 @ bs'"
    and 4: "list_all (\<lambda>b. blatest b = None \<and> binner b = 0) bs'" by blast
  from c1 have unf: "connect_fold object (k # ks) c = connect_fold object ks c1"
    by (simp add: connect_fold_def)
  from unf 1 3 2 4 have "bindings (connect_fold object (k # ks) c) = bindings c @ (bs @ bs') \<and>
        list_all (\<lambda>b. blatest b = None \<and> binner b = 0) (bs @ bs')"
    by simp
  then show ?case by (rule exI)
qed

lemma connect_fresh:
  "\<exists>bs. bindings (connect object c) = bindings c @ bs \<and>
        list_all (\<lambda>b. blatest b = None \<and> binner b = 0) bs"
  using connect_fold_fresh [of object "object_keys object" c]
  by (simp add: connect_fold_def connect_def)

lemma step_new_binding:
  assumes "length (bindings c) \<le> i" and "i < length (bindings (step e c))"
  shows "blatest (bindings (step e c) ! i) = None \<and> binner (bindings (step e c) ! i) = 0"
proof (cases e)
  case (Connect object)
  from connect_fresh [of object c] obtain bs where
    bs: "bindings (connect object c) = bindings c @ bs"
    "list_all (\<lambda>b. blatest b = None \<and> binner b = 0) bs"
    by blast
  from assms Connect bs(1) have "bindings (step e c) ! i \<in> set bs"
    by (simp add: nth_append)
  with bs(2) show ?thesis by (simp add: list_all_iff)
next
  case (Initialize s inp)
  with assms show ?thesis
    by (simp add: initialize_def Let_def state_next_def split: option.splits)
next
  case (Patch p)
  with assms show ?thesis by (simp add: patch_def state_next_def split: option.splits)
next
  case (Trigger key)
  with assms show ?thesis by (simp add: trigger_eq split: slot.splits)
next
  case (Subscribe st)
  with assms show ?thesis by (simp add: subscribe_def)
next
  case (Produce p v)
  with assms show ?thesis by (simp add: produce_eq)
next
  case (ProduceInner j v)
  with assms show ?thesis by (simp add: produce_inner_def split: if_splits)
next
  case (InputEmit src object)
  with assms show ?thesis by (simp add: input_emit_eq fold_callback_patch_frame)
next
  case Destroy
  with assms show ?thesis by (simp add: ngOnDestroy_def split: if_splits)
qed

lemma step_known:
  assumes "i < length (bindings c)"
    and "(blatest (bindings c ! i) = None) = (vs = [])"
    and "blatest (bindings c ! i) = None \<longrightarrow> binner (bindings c ! i) = 0"
  shows "(blatest (bindings (step e c) ! i) = None) = (vs @ arrives i e c = []) \<and>
         (blatest (bindings (step e c) ! i) = None \<longrightarrow> binner (bindings (step e c) ! i) = 0)"
proof (cases e)
  case (Connect object)
  from connect_fresh [of object c] obtain bs where
    bs: "bindings (connect object c) = bindings c @ bs" by blast
  with assms Connect show ?thesis by (simp add: nth_append)
next
  case (Initialize s inp)
  with assms show ?thesis
    by (simp add: initialize_def Let_def state_next_def split: option.splits)
next
  case (Patch p)
  with assms show ?thesis by (simp add: patch_def state_next_def split: option.splits)
next
  case (Trigger key)
  with assms show ?thesis
    by (auto simp: trigger_eq after_emit_def on_trigger_def binding_emit_def split: slot.splits option.splits)
next
  case (Subscribe st)
  with assms show ?thesis by (simp add: subscribe_def)
next
  case (Produce p v)
  with assms show ?thesis
    by (simp add: produce_eq after_emit_def on_produce_def binding_emit_def)
next
  case (ProduceInner j v)
  show ?thesis
  proof (cases "j = i")
    case True
    with assms ProduceInner show ?thesis by (auto simp: produce_inner_def)
  next
    case False
    with assms ProduceInner show ?thesis by (simp add: produce_inner_def)
  qed
next
  case (InputEmit src object)
  with assms show ?thesis by (simp add: input_emit_eq fold_callback_patch_frame)
next
  case Destroy
  with assms show ?thesis by (simp add: ngOnDestroy_def)
qed

lemma run_known:
  "i < length (bindings (run es new_container)) \<Longrightarrow>
   (blatest (bindings (run es new_container) ! i) = None) = (produced i es new_container = []) \<and>
   (blatest (bindings (run es new_container) ! i) = None \<longrightarrow>
      binner (bindings (run es new_container) ! i) = 0)"
proof (induction es rule: rev_induct)
  case Nil
  then show ?case by (simp add: run_def new_container_def)
next
  case (snoc e es)
  have r: "run (es @ [e]) new_container = step e (run es new_container)" by (simp add: run_def)
  show ?case
  proof (cases "i < length (bindings (run es new_container))")
    case True
    from snoc.IH [OF True] step_known [OF True, of "produced i es new_container" e]
    show ?thesis by (simp add: r produced_snoc)
  next
    case False
    then have le: "length (bindings (run es new_container)) \<le> i" by simp
    from snoc.prems have "i < length (bindings (step e (run es new_container)))" by (simp add: r)
    from step_new_binding [OF le this] produced_beyond [OF le] arrives_beyond [OF le, of e]
    show ?thesis by (simp add: r produced_snoc)
  qed
qed

lemma latest_known_None_iff:
  "i < length (bindings (run es new_container)) \<Longrightarrow>
   (latest_known i es = None) = (blatest (bindings (run es new_container) ! i) = None)"
  using run_known [of i es] by (simp add: latest_known_def)

lemma latest_known_snoc:
  "latest_known i (es @ [e]) =
     (if arrives i e (run es new_container) = [] then latest_known i es
      else Some (last (arrives i e (run es new_container))))"
  by (simp add: latest_known_def produced_snoc)

lemma step_multicast:
  assumes "i < length (bindings c)" and "\<not> is_inner e"
    and "blatest (bindings c ! i) = (if vs = [] then None else Some (last vs))"
  shows "blatest (bindings (step e c) ! i) =
           (if vs @ arrives i e c = [] then None else Some (last (vs @ arrives i e c)))"
proof (cases e)
  case (Connect object)
  from connect_fresh [of object c] obtain bs where
    bs: "bindings (connect object c) = bindings c @ bs" by blast
  with assms Connect show ?thesis by (simp add: nth_append)
next
  case (Initialize s inp)
  with assms show ?thesis
    by (simp add: initialize_def Let_def state_next_def split: option.splits)
next
  case (Patch p)
  with assms show ?thesis by (simp add: patch_def state_next_def split: option.splits)
next
  case (Trigger key)
  with assms show ?thesis
    by (auto simp: trigger_eq after_emit_def on_trigger_def binding_emit_def split: slot.splits option.splits)
next
  case (Subscribe st)
  with assms show ?thesis by (simp add: subscribe_def)
next
  case (Produce p v)
  with assms show ?thesis
    by (simp add: produce_eq after_emit_def on_produce_def binding_emit_def)
next
  case (ProduceInner j v)
  with assms show ?thesis by simp
next
  case (InputEmit src object)
  with assms show ?thesis by (simp add: input_emit_eq fold_callback_patch_frame)
next
  case Destroy
  with assms show ?thesis by (simp add: ngOnDestroy_def)
qed

lemma multicast_latest_known:
  "list_all (\<lambda>e. \<not> is_inner e) es \<Longrightarrow> i < length (bindings (run es new_container)) \<Longrightarrow>
   blatest (bindings (run es new_container) ! i) = latest_known i es"
proof (induction es rule: rev_induct)
  case Nil
  then show ?case by (simp add: run_def new_container_def)
next
  case (snoc e es)
  have r: "run (es @ [e]) new_container = step e (run es new_container)" by (simp add: run_def)
  from snoc.prems(1) have ne: "\<not> is_inner e" and all: "list_all (\<lambda>e. \<not> is_inner e) es" by simp_all
  show ?case
  proof (cases "i < length (bindings (run es new_container))")
    case True
    from snoc.IH [OF all True]
    have "blatest (bindings (run es new_container) ! i) =
        (if produced i es new_container = [] then None else Some (last (produced i es new_container)))"
      by (simp add: latest_known_def)
    from step_multicast [OF True ne this]
    show ?thesis by (simp add: r produced_snoc latest_known_def)
  next
    case False
    then have le: "length (bindings (run es new_container)) \<le> i" by simp
    from snoc.prems(2) have "i < length (bindings (step e (run es new_container)))" by (simp add: r)
    from step_new_binding [OF le this] produced_beyond [OF le] arrives_beyond [OF le, of e]
    show ?thesis by (simp add: r produced_snoc latest_known_def)
  qed
qed

lemma trigger_on_binding:
  assumes "map_of (triggers c) (bkey b) = Some n" and "i < length (bindings c)"
    and "b = bindings c ! i" and "\<not> bclosed b"
  shows "\<exists>c'. trigger (bkey b) c = Inr c' \<and>
           bindings c' ! i =
             (case blatest b of None \<Rightarrow> b
              | Some v \<Rightarrow> b\<lparr>binner := Suc (binner b), bout := bout b @ [v]\<rparr>) \<and>
           c' = (fold callback_patch (newly_handed (bindings c) (bindings c')) c)
                  \<lparr>triggers := triggers c', bindings := bindings c'\<rparr>"
proof -
  let ?c' = "(fold callback_patch (handed (on_trigger (bkey b)) (bindings c))
                 (c\<lparr>triggers := AList.update (bkey b) (Suc n) (triggers c)\<rparr>))
               \<lparr>bindings := map (after_emit (on_trigger (bkey b))) (bindings c)\<rparr>"
  from assms(1) have "trigger_slot (triggers c) (bkey b) = Registered n"
    by (simp add: trigger_slot_Registered)
  then have t: "trigger (bkey b) c = Inr ?c'" by (simp add: trigger_eq)
  from assms(4) have ot: "on_trigger (bkey b) b = blatest b" by (simp add: on_trigger_def)
  from assms(2,3) ot have t1: "bindings ?c' ! i =
             (case blatest b of None \<Rightarrow> b
              | Some v \<Rightarrow> b\<lparr>binner := Suc (binner b), bout := bout b @ [v]\<rparr>)"
    by (simp add: after_emit_def binding_emit_def split: option.splits)
  have t3: "?c' = (fold callback_patch (newly_handed (bindings c) (bindings ?c')) c)
                  \<lparr>triggers := triggers ?c', bindings := bindings ?c'\<rparr>"
    by (simp add: fold_callback_patch_triggers_update newly_handed_after_emit)
  show ?thesis by (rule exI [of _ ?c'], rule conjI [OF t conjI [OF t1 t3]])
qed

lemma produce_on_binding:
  assumes "i < length (bindings c)" and "b = bindings c ! i" and "\<not> bclosed b"
  shows "bindings (produce (bsource b) v c) ! i =
           b\<lparr>blatest := Some v, binner := Suc (binner b), bout := bout b @ [v]\<rparr> \<and>
         [(bkey b, v)] \<in> set (handed (on_produce (bsource b) v) (bindings c)) \<and>
         produce (bsource b) v c =
           (fold callback_patch (handed (on_produce (bsource b) v) (bindings c)) c)
             \<lparr>bindings := bindings (produce (bsource b) v c)\<rparr> \<and>
         (case state_val c of None \<Rightarrow> snapshot (produce (bsource b) v c) = Inl Uninitialized
          | Some s \<Rightarrow> \<exists>s'. snapshot (produce (bsource b) v c) = Inr s' \<and> get_field s' (bkey b) = v)"
proof -
  from assms(1,2) have mem: "b \<in> set (bindings c)" by simp
  from assms(3) have op: "on_produce (bsource b) v b = Some v" by (simp add: on_produce_def)
  from assms(1,2) op have 1: "bindings (produce (bsource b) v c) ! i =
           b\<lparr>blatest := Some v, binner := Suc (binner b), bout := bout b @ [v]\<rparr>"
    by (simp add: produce_eq after_emit_def binding_emit_def)
  from handed_member [of b "bindings c" "on_produce (bsource b) v" v, OF mem op]
  have hm: "[(bkey b, v)] \<in> set (handed (on_produce (bsource b) v) (bindings c))" .
  have 3: "produce (bsource b) v c =
           (fold callback_patch (handed (on_produce (bsource b) v) (bindings c)) c)
             \<lparr>bindings := bindings (produce (bsource b) v c)\<rparr>"
    by (simp add: produce_eq)
  have 4: "(case state_val c of None \<Rightarrow> snapshot (produce (bsource b) v c) = Inl Uninitialized
          | Some s \<Rightarrow> \<exists>s'. snapshot (produce (bsource b) v c) = Inr s' \<and> get_field s' (bkey b) = v)"
  proof (cases "state_val c")
    case None
    then have "state_val (fold callback_patch (handed (on_produce (bsource b) v) (bindings c)) c) = None"
      by (simp add: state_val_fold_callback_patch)
    with None show ?thesis
      by (simp add: produce_eq snapshot_def)
  next
    case (Some s)
    have shp: "list_all (\<lambda>p. \<exists>k. p = [(k, v)]) (handed (on_produce (bsource b) v) (bindings c))"
      by (rule handed_produce_shape)
    from fold_patch_same_value [OF Some shp, of "bkey b"] hm Some show ?thesis
      by (auto simp: produce_eq snapshot_def)
  qed
  from 1 hm 3 4 show ?thesis by blast
qed

text \<open>
  C4, as stated, fails, in two ways. After \<^verbatim>\<open>connect({x: producer})\<close> the trigger
  of \<^verbatim>\<open>x\<close> has fired once, and \<^verbatim>\<open>trigger('x')\<close> fires it again, before the
  producer has produced anything: \<^verbatim>\<open>combineLatest\<close> has no producer value yet and
  emits nothing, so \<^verbatim>\<open>switchMap\<close> opens no subscription on the producer, nothing is
  replayed and nothing is pushed. And when the producer has sent 5 to
  \<^verbatim>\<open>combineLatest\<close> and then 7 to the inner subscription of \<^verbatim>\<open>switchMap\<close> (a
  producer that starts anew for every subscriber), its latest known value is 7 and
  the field holds 7; \<^verbatim>\<open>trigger('x')\<close> makes \<^verbatim>\<open>combineLatest\<close> emit the 5 it
  holds, \<^verbatim>\<open>startWith(5)\<close> hands it on, and the field is set back to 5.
\<close>

theorem trigger_resubscribes_nothing_or_replays_stale_value:
  "map_of (triggers (run [Initialize [(''x'', JNum 0)] None, Connect [(''x'', 0)], Trigger ''x''] new_container)) ''x'' = Some 2 \<and>
   map bclosed (bindings (run [Initialize [(''x'', JNum 0)] None, Connect [(''x'', 0)], Trigger ''x''] new_container)) = [False] \<and>
   map binner (bindings (run [Initialize [(''x'', JNum 0)] None, Connect [(''x'', 0)], Trigger ''x''] new_container)) = [0] \<and>
   map bout (bindings (run [Initialize [(''x'', JNum 0)] None, Connect [(''x'', 0)], Trigger ''x''] new_container)) = [[]] \<and>
   pushed (run [Initialize [(''x'', JNum 0)] None, Connect [(''x'', 0)], Trigger ''x''] new_container) = [[(''x'', JNum 0)]] \<and>
   latest_known 0 [Initialize [(''x'', JNum 0)] None, Connect [(''x'', 0)], Produce 0 (JNum 5), ProduceInner 0 (JNum 7)] = Some (JNum 7) \<and>
   snapshot (run [Initialize [(''x'', JNum 0)] None, Connect [(''x'', 0)], Produce 0 (JNum 5), ProduceInner 0 (JNum 7)] new_container) = Inr [(''x'', JNum 7)] \<and>
   map bclosed (bindings (run [Initialize [(''x'', JNum 0)] None, Connect [(''x'', 0)], Produce 0 (JNum 5), ProduceInner 0 (JNum 7)] new_container)) = [False] \<and>
   map bout (bindings (run [Initialize [(''x'', JNum 0)] None, Connect [(''x'', 0)], Produce 0 (JNum 5), ProduceInner 0 (JNum 7)] new_container)) = [[JNum 5, JNum 7]] \<and>
   map bout (bindings (run [Initialize [(''x'', JNum 0)] None, Connect [(''x'', 0)], Produce 0 (JNum 5), ProduceInner 0 (JNum 7), Trigger ''x''] new_container)) = [[JNum 5, JNum 7, JNum 5]] \<and>
   snapshot (run [Initialize [(''x'', JNum 0)] None, Connect [(''x'', 0)], Produce 0 (JNum 5), ProduceInner 0 (JNum 7), Trigger ''x''] new_container) = Inr [(''x'', JNum 5)]"
  by code_simp

text \<open>
  C4, amended. Take any binding made by \<^verbatim>\<open>connect\<close> that is still open, for a
  field \<open>bkey b\<close>. Its trigger is registered, so \<^verbatim>\<open>trigger\<close> succeeds. If the
  producer has not produced a value yet, the firing leaves the binding as it is. If
  it has, the binding resubscribes to the producer on that firing and at once hands
  on one replayed value; that value is the producer's latest known value whenever
  the latest known value is the one \<^verbatim>\<open>combineLatest\<close> holds (which value is
  replayed otherwise is not stated here). Every value the producer sends to
  \<^verbatim>\<open>combineLatest\<close> is handed on, by a fresh subscription of \<^verbatim>\<open>switchMap\<close>;
  every value that arrives on the inner subscription \<^verbatim>\<open>switchMap\<close> holds is handed
  on as it is. Every value handed on by any binding is applied as
  \<^verbatim>\<open>patch({[field]: value})\<close>, in the order of the bindings, and nothing else is
  changed; on an initialized container the field then holds the produced value.
\<close>

theorem binding_resubscribes_and_patches:
  assumes "c = run es new_container" and "i < length (bindings c)" and "b = bindings c ! i"
    and "\<not> bclosed b"
  shows "(\<exists>c'. trigger (bkey b) c = Inr c' \<and>
           (case latest_known i es of
              None \<Rightarrow> bindings c' ! i = b
            | Some known \<Rightarrow>
                (\<exists>v. bindings c' ! i = b\<lparr>binner := Suc (binner b), bout := bout b @ [v]\<rparr> \<and>
                     (blatest b = Some known \<longrightarrow> v = known))) \<and>
           c' = (fold callback_patch (newly_handed (bindings c) (bindings c')) c)
                  \<lparr>triggers := triggers c', bindings := bindings c'\<rparr>) \<and>
         (bindings (produce (bsource b) v c) ! i =
           b\<lparr>blatest := Some v, binner := Suc (binner b), bout := bout b @ [v]\<rparr> \<and>
          [(bkey b, v)] \<in> set (handed (on_produce (bsource b) v) (bindings c)) \<and>
          produce (bsource b) v c =
           (fold callback_patch (handed (on_produce (bsource b) v) (bindings c)) c)
             \<lparr>bindings := bindings (produce (bsource b) v c)\<rparr> \<and>
          (case state_val c of None \<Rightarrow> snapshot (produce (bsource b) v c) = Inl Uninitialized
           | Some s \<Rightarrow> \<exists>s'. snapshot (produce (bsource b) v c) = Inr s' \<and> get_field s' (bkey b) = v)) \<and>
         produce_inner i w c =
           (if 0 < binner b
            then (callback_patch [(bkey b, w)] c)\<lparr>bindings := (bindings c)[i := b\<lparr>bout := bout b @ [w]\<rparr>]\<rparr>
            else c)"
proof -
  from reachable_binding_registered [of i es] assms(1,2,3)
  obtain n where n: "map_of (triggers c) (bkey b) = Some n" by auto
  from trigger_on_binding [OF n assms(2,3,4)] obtain c' where
    t: "trigger (bkey b) c = Inr c'"
    and t1: "bindings c' ! i =
             (case blatest b of None \<Rightarrow> b
              | Some v \<Rightarrow> b\<lparr>binner := Suc (binner b), bout := bout b @ [v]\<rparr>)"
    and t3: "c' = (fold callback_patch (newly_handed (bindings c) (bindings c')) c)
                  \<lparr>triggers := triggers c', bindings := bindings c'\<rparr>"
    by blast
  from latest_known_None_iff [of i es] assms(1,2,3)
  have iff: "(latest_known i es = None) = (blatest b = None)" by simp
  have t2: "(case latest_known i es of
              None \<Rightarrow> bindings c' ! i = b
            | Some known \<Rightarrow>
                (\<exists>v. bindings c' ! i = b\<lparr>binner := Suc (binner b), bout := bout b @ [v]\<rparr> \<and>
                     (blatest b = Some known \<longrightarrow> v = known)))"
  proof (cases "blatest b")
    case None
    with iff t1 show ?thesis by simp
  next
    case (Some u)
    with iff obtain known where k: "latest_known i es = Some known" by auto
    from Some t1 have "bindings c' ! i = b\<lparr>binner := Suc (binner b), bout := bout b @ [u]\<rparr> \<and>
                     (blatest b = Some known \<longrightarrow> u = known)" by simp
    then have "\<exists>v. bindings c' ! i = b\<lparr>binner := Suc (binner b), bout := bout b @ [v]\<rparr> \<and>
                     (blatest b = Some known \<longrightarrow> v = known)" by (rule exI)
    with k show ?thesis by simp
  qed
  have tr: "\<exists>c'. trigger (bkey b) c = Inr c' \<and>
           (case latest_known i es of
              None \<Rightarrow> bindings c' ! i = b
            | Some known \<Rightarrow>
                (\<exists>v. bindings c' ! i = b\<lparr>binner := Suc (binner b), bout := bout b @ [v]\<rparr> \<and>
                     (blatest b = Some known \<longrightarrow> v = known))) \<and>
           c' = (fold callback_patch (newly_handed (bindings c) (bindings c')) c)
                  \<lparr>triggers := triggers c', bindings := bindings c'\<rparr>"
    by (rule exI [of _ c'], rule conjI [OF t conjI [OF t2 t3]])
  from assms(2,3,4) have "produce_inner i w c =
           (if 0 < binner b
            then (callback_patch [(bkey b, w)] c)\<lparr>bindings := (bindings c)[i := b\<lparr>bout := bout b @ [w]\<rparr>]\<rparr>
            else c)"
    by (simp add: produce_inner_def)
  then show ?thesis
    by (rule conjI [OF tr conjI [OF produce_on_binding [OF assms(2,3,4)]]])
qed


theorem binding_resubscribes_and_patches_witness:
  "0 < length (bindings (run [Initialize [(''x'', JNum 0)] None, Connect [(''x'', 0)], Produce 0 (JNum 5), ProduceInner 0 (JNum 7), Produce 0 (JNum 9)] new_container)) \<and>
   \<not> bclosed (bindings (run [Initialize [(''x'', JNum 0)] None, Connect [(''x'', 0)], Produce 0 (JNum 5), ProduceInner 0 (JNum 7), Produce 0 (JNum 9)] new_container) ! 0) \<and>
   bindings (run [Initialize [(''x'', JNum 0)] None, Connect [(''x'', 0)], Produce 0 (JNum 5), ProduceInner 0 (JNum 7), Produce 0 (JNum 9)] new_container) ! 0 =
     \<lparr>bkey = ''x'', bsource = 0, blatest = Some (JNum 9), binner = 2, bout = [JNum 5, JNum 7, JNum 9], bclosed = False\<rparr> \<and>
   latest_known 0 [Initialize [(''x'', JNum 0)] None, Connect [(''x'', 0)], Produce 0 (JNum 5), ProduceInner 0 (JNum 7), Produce 0 (JNum 9)] = Some (JNum 9) \<and>
   (\<exists>c'. trigger ''x'' (run [Initialize [(''x'', JNum 0)] None, Connect [(''x'', 0)], Produce 0 (JNum 5), ProduceInner 0 (JNum 7), Produce 0 (JNum 9)] new_container) = Inr c' \<and>
      bindings c' ! 0 =
        \<lparr>bkey = ''x'', bsource = 0, blatest = Some (JNum 9), binner = 3, bout = [JNum 5, JNum 7, JNum 9, JNum 9], bclosed = False\<rparr>) \<and>
   bindings (produce 0 (JNum 6) (run [Initialize [(''x'', JNum 0)] None, Connect [(''x'', 0)], Produce 0 (JNum 5), ProduceInner 0 (JNum 7), Produce 0 (JNum 9)] new_container)) ! 0 =
     \<lparr>bkey = ''x'', bsource = 0, blatest = Some (JNum 6), binner = 3, bout = [JNum 5, JNum 7, JNum 9, JNum 6], bclosed = False\<rparr> \<and>
   (\<exists>s'. snapshot (produce 0 (JNum 6) (run [Initialize [(''x'', JNum 0)] None, Connect [(''x'', 0)], Produce 0 (JNum 5), ProduceInner 0 (JNum 7), Produce 0 (JNum 9)] new_container)) = Inr s' \<and>
      get_field s' ''x'' = JNum 6) \<and>
   produce_inner 0 (JNum 8) (run [Initialize [(''x'', JNum 0)] None, Connect [(''x'', 0)], Produce 0 (JNum 5), ProduceInner 0 (JNum 7), Produce 0 (JNum 9)] new_container) =
     (callback_patch [(''x'', JNum 8)]
        (run [Initialize [(''x'', JNum 0)] None, Connect [(''x'', 0)], Produce 0 (JNum 5), ProduceInner 0 (JNum 7), Produce 0 (JNum 9)] new_container))
       \<lparr>bindings := [\<lparr>bkey = ''x'', bsource = 0, blatest = Some (JNum 9), binner = 2, bout = [JNum 5, JNum 7, JNum 9, JNum 8], bclosed = False\<rparr>]\<rparr> \<and>
   snapshot (produce_inner 0 (JNum 8)
       (run [Initialize [(''x'', JNum 0)] None, Connect [(''x'', 0)], Produce 0 (JNum 5), ProduceInner 0 (JNum 7), Produce 0 (JNum 9)] new_container)) =
     Inr [(''x'', JNum 8)]"
proof -
  let ?c = "run [Initialize [(''x'', JNum 0)] None, Connect [(''x'', 0)], Produce 0 (JNum 5), ProduceInner 0 (JNum 7), Produce 0 (JNum 9)] new_container"
  have h1: "0 < length (bindings ?c)" by code_simp
  have h2: "\<not> bclosed (bindings ?c ! 0)" by code_simp
  have hb: "bindings ?c ! 0 =
     \<lparr>bkey = ''x'', bsource = 0, blatest = Some (JNum 9), binner = 2, bout = [JNum 5, JNum 7, JNum 9], bclosed = False\<rparr>"
    by code_simp
  have hk: "latest_known 0 [Initialize [(''x'', JNum 0)] None, Connect [(''x'', 0)], Produce 0 (JNum 5), ProduceInner 0 (JNum 7), Produce 0 (JNum 9)] = Some (JNum 9)"
    by code_simp
  have hs: "state_val ?c = Some [(''x'', JNum 9)]" by code_simp
  have hbs: "bindings ?c =
     [\<lparr>bkey = ''x'', bsource = 0, blatest = Some (JNum 9), binner = 2, bout = [JNum 5, JNum 7, JNum 9], bclosed = False\<rparr>]"
    by code_simp
  note t = binding_resubscribes_and_patches [OF refl h1 refl h2, of "JNum 6" "JNum 8"]
  from t have a: "\<exists>c'. trigger ''x'' ?c = Inr c' \<and>
      bindings c' ! 0 =
        \<lparr>bkey = ''x'', bsource = 0, blatest = Some (JNum 9), binner = 3, bout = [JNum 5, JNum 7, JNum 9, JNum 9], bclosed = False\<rparr>"
    unfolding hb hk by auto
  from t have b: "bindings (produce 0 (JNum 6) ?c) ! 0 =
     \<lparr>bkey = ''x'', bsource = 0, blatest = Some (JNum 6), binner = 3, bout = [JNum 5, JNum 7, JNum 9, JNum 6], bclosed = False\<rparr>"
    unfolding hb by simp
  from t have c: "\<exists>s'. snapshot (produce 0 (JNum 6) ?c) = Inr s' \<and> get_field s' ''x'' = JNum 6"
    unfolding hb hs by simp
  from t have d: "produce_inner 0 (JNum 8) ?c =
     (callback_patch [(''x'', JNum 8)] ?c)
       \<lparr>bindings := [\<lparr>bkey = ''x'', bsource = 0, blatest = Some (JNum 9), binner = 2, bout = [JNum 5, JNum 7, JNum 9, JNum 8], bclosed = False\<rparr>]\<rparr>"
    unfolding hb by (simp add: hbs)
  have e: "snapshot (produce_inner 0 (JNum 8) ?c) = Inr [(''x'', JNum 8)]"
    by code_simp
  show ?thesis
    by (rule conjI [OF h1 conjI [OF h2 conjI [OF hb conjI [OF hk conjI [OF a conjI [OF b conjI [OF c conjI [OF d e]]]]]]]])
qed

end
